theory Spec2Isabelle
  imports Complex_Main "HOL-Library.AList" "HOL-Library.Log_Nat"
begin

section \<open>Fat-tree topology, link failures and path analysis (Task1.py)\<close>

text \<open>
  A shallow embedding of \<^verbatim>\<open>Task1.py\<close>. Python exceptions are values of the type
  \<open>error\<close>; a function that can raise returns \<open>error + 'a\<close> with \<open>Inl\<close> for the
  exception. Python's unbounded integers are \<open>int\<close>; a \<^verbatim>\<open>range(n)\<close> loop runs over
  \<open>[0..<nat n]\<close>.
\<close>

subsection \<open>Exceptions\<close>

datatype error =
    ValueError
  | SystemExit int
  | IndexError
  | KeyError
  | ZeroDivisionError
  | NetworkXNoPath
  | NodeNotFound
  | NetworkXError
  | OverflowError

subsection \<open>Structural parameters: \<^verbatim>\<open>calculate_fat_tree_params\<close>\<close>

record params =
  p_k :: int
  p_k_half :: int
  p_num_pods :: int
  p_num_core_switches :: int
  p_total_hosts :: int

definition calculate_fat_tree_params :: "int \<Rightarrow> error + params" where
  "calculate_fat_tree_params k =
     (if k mod 2 \<noteq> 0 \<or> k < 2 then Inl ValueError
      else let k_half = k div 2 in
        Inr \<lparr> p_k = k, p_k_half = k_half, p_num_pods = k,
              p_num_core_switches = k_half * k_half,
              p_total_hosts = (k ^ 3) div 4 \<rparr>)"

subsection \<open>Node identifiers: the f-strings \<^verbatim>\<open>C_{c}\<close>, \<^verbatim>\<open>A_{p}_{a}\<close>, \<^verbatim>\<open>E_{p}_{e}\<close>, \<^verbatim>\<open>H_{h}\<close>\<close>

text \<open>\<^verbatim>\<open>str(n)\<close> for a non-negative integer: its decimal digits, most significant first.\<close>

definition digit_char :: "nat \<Rightarrow> char" where
  "digit_char d = ''0123456789'' ! d"

fun str_nat :: "nat \<Rightarrow> string" where
  "str_nat n = (if n < 10 then [digit_char n] else str_nat (n div 10) @ [digit_char (n mod 10)])"

declare str_nat.simps [simp del]

type_synonym node_id = string

definition node_C :: "nat \<Rightarrow> node_id" where
  "node_C c = ''C_'' @ str_nat c"

definition node_A :: "nat \<Rightarrow> nat \<Rightarrow> node_id" where
  "node_A p a = ''A_'' @ str_nat p @ ''_'' @ str_nat a"

definition node_E :: "nat \<Rightarrow> nat \<Rightarrow> node_id" where
  "node_E p e = ''E_'' @ str_nat p @ ''_'' @ str_nat e"

definition node_H :: "nat \<Rightarrow> node_id" where
  "node_H h = ''H_'' @ str_nat h"

subsection \<open>The graph: a model of \<^verbatim>\<open>networkx.Graph\<close>\<close>

text \<open>
  \<^verbatim>\<open>networkx.Graph\<close> keeps two insertion-ordered dictionaries: the node table (node to
  attribute dictionary) and the adjacency table (node to a dictionary from neighbour to
  link attributes), the latter holding every undirected link in both directions. Both are
  association lists here; \<open>AList.update\<close> is Python's dictionary assignment (replace in
  place, or append a new key).

  The node attributes used by the program are \<^verbatim>\<open>type\<close>, \<^verbatim>\<open>pod\<close> and \<^verbatim>\<open>edge_anchor\<close>;
  an absent key is \<open>None\<close>. The only link attribute is \<^verbatim>\<open>layer\<close>.
\<close>

datatype node_type = core | agg | edge | host

datatype layer = edge_host | agg_edge | agg_core

record node_attrs =
  a_type :: "node_type option"
  a_pod :: "int option"
  a_edge_anchor :: "node_id option"

definition no_attrs :: node_attrs where
  "no_attrs = \<lparr> a_type = None, a_pod = None, a_edge_anchor = None \<rparr>"

text \<open>\<^verbatim>\<open>dict.update\<close> on attribute dictionaries: keys of the new dictionary win.\<close>

definition orelse :: "'a option \<Rightarrow> 'a option \<Rightarrow> 'a option" where
  "orelse new old = (case new of None \<Rightarrow> old | Some v \<Rightarrow> Some v)"

definition attrs_update :: "node_attrs \<Rightarrow> node_attrs \<Rightarrow> node_attrs" where
  "attrs_update old new =
     \<lparr> a_type = orelse (a_type new) (a_type old),
       a_pod = orelse (a_pod new) (a_pod old),
       a_edge_anchor = orelse (a_edge_anchor new) (a_edge_anchor old) \<rparr>"

record pod_switches =
  ps_agg :: "node_id list"
  ps_edge :: "node_id list"
  ps_host_to_edge :: "(node_id \<times> node_id) list"

record graph =
  g_node :: "(node_id \<times> node_attrs) list"
  g_adj :: "(node_id \<times> (node_id \<times> layer) list) list"
  g_params :: "params option"
  g_pod_data :: "(nat \<times> pod_switches) list"

definition empty_graph :: graph where
  "empty_graph = \<lparr> g_node = [], g_adj = [], g_params = None, g_pod_data = [] \<rparr>"

definition has_node :: "graph \<Rightarrow> node_id \<Rightarrow> bool" where
  "has_node G n = (map_of (g_node G) n \<noteq> None)"

definition nbrs :: "graph \<Rightarrow> node_id \<Rightarrow> (node_id \<times> layer) list" where
  "nbrs G n = (case map_of (g_adj G) n of None \<Rightarrow> [] | Some ns \<Rightarrow> ns)"

text \<open>\<^verbatim>\<open>G.add_node(n, **attrs)\<close>: a new node gets an empty adjacency dictionary; an
  existing node has its attribute dictionary updated.\<close>

definition add_node :: "graph \<Rightarrow> node_id \<Rightarrow> node_attrs \<Rightarrow> graph" where
  "add_node G n attrs =
     (case map_of (g_node G) n of
        None \<Rightarrow> G\<lparr> g_node := AList.update n attrs (g_node G),
                   g_adj := AList.update n [] (g_adj G) \<rparr>
      | Some old \<Rightarrow> G\<lparr> g_node := AList.update n (attrs_update old attrs) (g_node G) \<rparr>)"

text \<open>\<^verbatim>\<open>G.add_edge(u, v, layer=l)\<close>: missing endpoints are created with no attributes,
  then the link is stored under both endpoints.\<close>

definition ensure_node :: "graph \<Rightarrow> node_id \<Rightarrow> graph" where
  "ensure_node G n = (if has_node G n then G else add_node G n no_attrs)"

definition set_adj :: "graph \<Rightarrow> node_id \<Rightarrow> node_id \<Rightarrow> layer \<Rightarrow> graph" where
  "set_adj G u v l = G\<lparr> g_adj := AList.update u (AList.update v l (nbrs G u)) (g_adj G) \<rparr>"

definition add_edge :: "graph \<Rightarrow> node_id \<Rightarrow> node_id \<Rightarrow> layer \<Rightarrow> graph" where
  "add_edge G u v l = set_adj (set_adj (ensure_node (ensure_node G u) v) u v l) v u l"

text \<open>\<^verbatim>\<open>G.has_edge(u, v)\<close> and \<^verbatim>\<open>G.remove_edge(u, v)\<close>; the latter raises
  \<^verbatim>\<open>NetworkXError\<close> when the link is absent.\<close>

definition has_edge :: "graph \<Rightarrow> node_id \<Rightarrow> node_id \<Rightarrow> bool" where
  "has_edge G u v = (map_of (nbrs G u) v \<noteq> None)"

definition del_adj :: "graph \<Rightarrow> node_id \<Rightarrow> node_id \<Rightarrow> graph" where
  "del_adj G u v = G\<lparr> g_adj := AList.update u (AList.delete v (nbrs G u)) (g_adj G) \<rparr>"

definition remove_edge :: "graph \<Rightarrow> node_id \<Rightarrow> node_id \<Rightarrow> error + graph" where
  "remove_edge G u v =
     (if has_edge G u v then Inr (if u = v then del_adj G u v else del_adj (del_adj G u v) v u)
      else Inl NetworkXError)"

text \<open>\<^verbatim>\<open>G.edges()\<close>: nodes in insertion order, each with its neighbours in insertion
  order, skipping neighbours that were already listed as first endpoint.\<close>

fun edges_from :: "node_id list \<Rightarrow> (node_id \<times> (node_id \<times> layer) list) list \<Rightarrow> (node_id \<times> node_id) list" where
  "edges_from seen [] = []"
| "edges_from seen ((n, ns) # rest) =
     map (\<lambda>(v, l). (n, v)) (filter (\<lambda>(v, l). v \<notin> set seen) ns) @ edges_from (n # seen) rest"

definition edges :: "graph \<Rightarrow> (node_id \<times> node_id) list" where
  "edges G = edges_from [] (g_adj G)"

subsection \<open>Loops that can raise\<close>

fun for_each :: "'a list \<Rightarrow> ('a \<Rightarrow> 's \<Rightarrow> error + 's) \<Rightarrow> 's \<Rightarrow> error + 's" where
  "for_each [] body s = Inr s"
| "for_each (x # xs) body s =
     (case body x s of Inl e \<Rightarrow> Inl e | Inr s' \<Rightarrow> for_each xs body s')"

subsection \<open>Topology construction: \<^verbatim>\<open>build_fat_tree\<close>\<close>

definition core_attrs :: node_attrs where
  "core_attrs = \<lparr> a_type = Some core, a_pod = Some (- 1), a_edge_anchor = None \<rparr>"

definition switch_attrs :: "node_type \<Rightarrow> nat \<Rightarrow> node_attrs" where
  "switch_attrs t pod_id = \<lparr> a_type = Some t, a_pod = Some (int pod_id), a_edge_anchor = None \<rparr>"

definition host_attrs :: "nat \<Rightarrow> node_id \<Rightarrow> node_attrs" where
  "host_attrs pod_id edge_node_id =
     \<lparr> a_type = Some host, a_pod = Some (int pod_id), a_edge_anchor = Some edge_node_id \<rparr>"

text \<open>The loop over \<^verbatim>\<open>c_idx\<close>: the state is the graph and the list \<^verbatim>\<open>core_switches\<close>.\<close>

record core_state =
  cs_G :: graph
  cs_core_switches :: "node_id list"

definition core_step :: "nat \<Rightarrow> core_state \<Rightarrow> core_state" where
  "core_step c_idx s =
     (let node_id = node_C c_idx
      in \<lparr> cs_G = add_node (cs_G s) node_id core_attrs,
           cs_core_switches = cs_core_switches s @ [node_id] \<rparr>)"

text \<open>Inside one pod: the graph, the pod's entry of \<^verbatim>\<open>pod_switches_data\<close> and the
  counter \<^verbatim>\<open>current_host_idx\<close>.\<close>

record pod_state =
  bs_G :: graph
  bs_pd :: pod_switches
  bs_cur :: nat

definition agg_step :: "nat \<Rightarrow> nat \<Rightarrow> pod_state \<Rightarrow> pod_state" where
  "agg_step pod_id a_idx s =
     (let node_id = node_A pod_id a_idx
      in s\<lparr> bs_G := add_node (bs_G s) node_id (switch_attrs agg pod_id),
            bs_pd := (bs_pd s)\<lparr> ps_agg := ps_agg (bs_pd s) @ [node_id] \<rparr> \<rparr>)"

definition host_step :: "nat \<Rightarrow> node_id \<Rightarrow> nat \<Rightarrow> pod_state \<Rightarrow> pod_state" where
  "host_step pod_id edge_node_id h_idx s =
     (let host_node_id = node_H (bs_cur s);
          G1 = add_node (bs_G s) host_node_id (host_attrs pod_id edge_node_id);
          G2 = add_edge G1 edge_node_id host_node_id edge_host
      in \<lparr> bs_G = G2,
           bs_pd = (bs_pd s)\<lparr> ps_host_to_edge :=
                      AList.update host_node_id edge_node_id (ps_host_to_edge (bs_pd s)) \<rparr>,
           bs_cur = bs_cur s + 1 \<rparr>)"

definition edge_step :: "nat \<Rightarrow> nat \<Rightarrow> nat \<Rightarrow> pod_state \<Rightarrow> pod_state" where
  "edge_step k_half pod_id e_idx s =
     (let edge_node_id = node_E pod_id e_idx;
          s1 = s\<lparr> bs_G := add_node (bs_G s) edge_node_id (switch_attrs edge pod_id),
                  bs_pd := (bs_pd s)\<lparr> ps_edge := ps_edge (bs_pd s) @ [edge_node_id] \<rparr> \<rparr>
      in fold (host_step pod_id edge_node_id) [0..<k_half] s1)"

text \<open>The loop over \<^verbatim>\<open>pod_id\<close> of part 1.\<close>

record nodes_state =
  ns_G :: graph
  ns_pods :: "(nat \<times> pod_switches) list"
  ns_cur :: nat

definition pod_step :: "nat \<Rightarrow> nat \<Rightarrow> nodes_state \<Rightarrow> nodes_state" where
  "pod_step k_half pod_id s =
     (let s0 = \<lparr> bs_G = ns_G s,
                 bs_pd = \<lparr> ps_agg = [], ps_edge = [], ps_host_to_edge = [] \<rparr>,
                 bs_cur = ns_cur s \<rparr>;
          s1 = fold (agg_step pod_id) [0..<k_half] s0;
          s2 = fold (edge_step k_half pod_id) [0..<k_half] s1
      in \<lparr> ns_G = bs_G s2,
           ns_pods = AList.update pod_id (bs_pd s2) (ns_pods s),
           ns_cur = bs_cur s2 \<rparr>)"

text \<open>Part 2, A: every aggregation switch of the pod to every edge switch of the pod.\<close>

definition agg_edge_links :: "node_id list \<Rightarrow> node_id list \<Rightarrow> graph \<Rightarrow> graph" where
  "agg_edge_links agg_switches edge_switches G =
     fold (\<lambda>agg_node. fold (\<lambda>edge_node G'. add_edge G' agg_node edge_node agg_edge) edge_switches)
       agg_switches G"

text \<open>Part 2, B: striping. \<^verbatim>\<open>core_switches[core_idx]\<close> raises \<^verbatim>\<open>IndexError\<close> out of
  range (the index is never negative).\<close>

definition stripe_step :: "node_id list \<Rightarrow> node_id \<Rightarrow> nat \<Rightarrow> nat \<Rightarrow> graph \<Rightarrow> error + graph" where
  "stripe_step core_switches agg_node strip_start_index core_offset G =
     (let core_idx = strip_start_index + core_offset
      in if core_idx < length core_switches
         then Inr (add_edge G agg_node (core_switches ! core_idx) agg_core)
         else Inl IndexError)"

definition stripe :: "nat \<Rightarrow> node_id list \<Rightarrow> nat \<times> node_id \<Rightarrow> graph \<Rightarrow> error + graph" where
  "stripe k_half core_switches ia G =
     (let agg_idx = fst ia; agg_node = snd ia; strip_start_index = agg_idx * k_half
      in for_each [0..<k_half] (stripe_step core_switches agg_node strip_start_index) G)"

definition link_pod ::
  "nat \<Rightarrow> node_id list \<Rightarrow> (nat \<times> pod_switches) list \<Rightarrow> nat \<Rightarrow> graph \<Rightarrow> error + graph" where
  "link_pod k_half core_switches pod_switches_data pod_id G =
     (case map_of pod_switches_data pod_id of
        None \<Rightarrow> Inl KeyError
      | Some pd \<Rightarrow>
          let agg_switches = ps_agg pd; edge_switches = ps_edge pd;
              G1 = agg_edge_links agg_switches edge_switches G
          in for_each (enumerate 0 agg_switches) (stripe k_half core_switches) G1)"

text \<open>The body of \<^verbatim>\<open>build_fat_tree\<close> after the parameters were computed.\<close>

definition build_graph :: "params \<Rightarrow> error + graph" where
  "build_graph ps =
     (let k_half = nat (p_k_half ps);
          s0 = fold core_step [0..<nat (p_num_core_switches ps)]
                 \<lparr> cs_G = empty_graph, cs_core_switches = [] \<rparr>;
          s1 = fold (pod_step k_half) [0..<nat (p_num_pods ps)]
                 \<lparr> ns_G = cs_G s0, ns_pods = [], ns_cur = 0 \<rparr>
      in case for_each [0..<nat (p_num_pods ps)]
                (link_pod k_half (cs_core_switches s0) (ns_pods s1)) (ns_G s1) of
           Inl e \<Rightarrow> Inl e
         | Inr G \<Rightarrow> Inr (G\<lparr> g_params := Some ps, g_pod_data := ns_pods s1 \<rparr>))"

text \<open>\<^verbatim>\<open>build_fat_tree\<close>: a \<^verbatim>\<open>ValueError\<close> of the parameter computation is caught, reported
  and turned into \<^verbatim>\<open>sys.exit(1)\<close>, that is, the exception \<^verbatim>\<open>SystemExit(1)\<close>.\<close>

definition build_fat_tree :: "int \<Rightarrow> error + graph" where
  "build_fat_tree k =
     (case calculate_fat_tree_params k of
        Inl ValueError \<Rightarrow> Inl (SystemExit 1)
      | Inl e \<Rightarrow> Inl e
      | Inr ps \<Rightarrow> build_graph ps)"

subsection \<open>Numbers: \<^verbatim>\<open>int\<close> and \<^verbatim>\<open>float\<close>\<close>

text \<open>
  Python's \<^verbatim>\<open>float\<close> is IEEE 754 binary64. A finite double is a rational number; an
  arithmetic operation returns the exact result rounded to the nearest double, ties to
  even. \<open>fl\<close> is that rounding: 53 significant bits, and below \<open>2 powi (-1022)\<close> the
  fixed spacing \<open>2 powi (-1074)\<close> of the subnormal numbers. A result whose rounding
  reaches \<open>2 ^ 1024\<close> in magnitude is not a finite double (\<open>overflows\<close>).
\<close>

definition round_half_even :: "rat \<Rightarrow> int" where
  "round_half_even x =
     (let f = \<lfloor>x\<rfloor>; d = x - of_int f
      in if d < 1 / 2 then f else if 1 / 2 < d then f + 1 else if even f then f else f + 1)"

text \<open>\<open>binade x\<close> is the integer \<open>e\<close> with \<open>2 powi e \<le> x < 2 powi (e + 1)\<close>, for \<open>x > 0\<close>.\<close>

definition binade :: "rat \<Rightarrow> int" where
  "binade x = (let (a, b) = quotient_of x; e = bitlen a - bitlen b
               in if x < 2 powi e then e - 1 else e)"

definition fl :: "rat \<Rightarrow> rat" where
  "fl x = (if x = 0 then 0
           else let e = max (binade \<bar>x\<bar> - 52) (- 1074)
                in sgn x * of_int (round_half_even (\<bar>x\<bar> / 2 powi e)) * 2 powi e)"

definition overflows :: "rat \<Rightarrow> bool" where
  "overflows x \<longleftrightarrow> 2 ^ 1024 \<le> \<bar>fl x\<bar>"

text \<open>
  A number handed to the program is an \<^verbatim>\<open>int\<close> or a \<^verbatim>\<open>float\<close>: \<open>Fin q\<close> is the integer
  or the finite double that denotes the rational \<open>q\<close>; \<open>PInf\<close>, \<open>NInf\<close> and \<open>NaN\<close> are
  the other three kinds of \<^verbatim>\<open>float\<close>.
\<close>

datatype number = Fin rat | PInf | NInf | NaN

text \<open>\<^verbatim>\<open>x <= 0\<close>: false for \<^verbatim>\<open>nan\<close>.\<close>

fun le_zero :: "number \<Rightarrow> bool" where
  "le_zero (Fin q) = (q \<le> 0)"
| "le_zero PInf = False"
| "le_zero NInf = True"
| "le_zero NaN = False"

text \<open>The conversion of an operand to \<^verbatim>\<open>float\<close>: an \<^verbatim>\<open>int\<close> is rounded, and raises
  \<^verbatim>\<open>OverflowError\<close> when it is too large; a \<^verbatim>\<open>float\<close> is unchanged (\<open>fl q = q\<close> for a
  double \<open>q\<close>).\<close>

fun to_float :: "number \<Rightarrow> error + number" where
  "to_float (Fin q) = (if overflows q then Inl OverflowError else Inr (Fin (fl q)))"
| "to_float x = Inr x"

text \<open>\<^verbatim>\<open>x / 100.0\<close> on a \<^verbatim>\<open>float\<close>: the quotient of a finite double is smaller in magnitude
  and cannot overflow.\<close>

fun float_div_100 :: "number \<Rightarrow> number" where
  "float_div_100 (Fin q) = Fin (fl (q / 100))"
| "float_div_100 x = x"

text \<open>\<^verbatim>\<open>t * x\<close> for a finite double \<open>t\<close>: an overflowing product is an infinity (no
  exception), and zero times an infinity is \<^verbatim>\<open>nan\<close>.\<close>

fun float_mul :: "rat \<Rightarrow> number \<Rightarrow> number" where
  "float_mul t (Fin q) =
     (if overflows (t * q) then (if 0 < t * q then PInf else NInf) else Fin (fl (t * q)))"
| "float_mul t PInf = (if t = 0 then NaN else if 0 < t then PInf else NInf)"
| "float_mul t NInf = (if t = 0 then NaN else if 0 < t then NInf else PInf)"
| "float_mul t NaN = NaN"

text \<open>\<^verbatim>\<open>math.ceil\<close> of a \<^verbatim>\<open>float\<close> is an \<^verbatim>\<open>int\<close>; it raises \<^verbatim>\<open>OverflowError\<close> on an
  infinity and \<^verbatim>\<open>ValueError\<close> on \<^verbatim>\<open>nan\<close>.\<close>

fun math_ceil :: "number \<Rightarrow> error + int" where
  "math_ceil (Fin q) = Inr \<lceil>q\<rceil>"
| "math_ceil PInf = Inl OverflowError"
| "math_ceil NInf = Inl OverflowError"
| "math_ceil NaN = Inl ValueError"

subsection \<open>The random source\<close>

text \<open>
  \<^verbatim>\<open>random.sample(population, k)\<close> raises \<^verbatim>\<open>ValueError\<close> unless \<open>0 \<le> k \<le> n\<close> for the
  population size \<open>n\<close>; otherwise it returns the elements at \<open>k\<close> distinct positions
  chosen by the generator. The generator is library code: it is a parameter, a function
  from the generator state, \<open>n\<close> and \<open>k\<close> to the chosen positions and the next state.
  \<open>valid_sampler\<close> is its contract.
\<close>

type_synonym 'r sampler = "'r \<Rightarrow> nat \<Rightarrow> nat \<Rightarrow> nat list \<times> 'r"

definition valid_sampler :: "'r sampler \<Rightarrow> bool" where
  "valid_sampler smp =
     (\<forall>r n k. k \<le> n \<longrightarrow>
        length (fst (smp r n k)) = k \<and> distinct (fst (smp r n k)) \<and>
        (\<forall>j \<in> set (fst (smp r n k)). j < n))"

definition random_sample :: "'r sampler \<Rightarrow> 'r \<Rightarrow> 'a list \<Rightarrow> int \<Rightarrow> (error + 'a list) \<times> 'r" where
  "random_sample smp r population k =
     (let n = length population
      in if \<not> (0 \<le> k \<and> k \<le> int n) then (Inl ValueError, r)
         else let (js, r') = smp r n (nat k)
              in (Inr (map (\<lambda>j. population ! j) js), r'))"

text \<open>A generator that always chooses the leading positions, for concrete evaluation.\<close>

definition leading_positions :: "unit sampler" where
  "leading_positions r n k = ([0..<k], r)"

subsection \<open>Failure injection: \<^verbatim>\<open>model_link_failures\<close>\<close>

text \<open>
  \<^verbatim>\<open>math.ceil(total_edges * (failure_rate_percent / 100.0))\<close>: the rate is converted to
  \<^verbatim>\<open>float\<close> and divided by 100, the link count is converted to \<^verbatim>\<open>float\<close> and multiplied
  with the quotient, and the ceiling of the product is taken as an \<^verbatim>\<open>int\<close>.
\<close>

definition num_to_fail_of :: "nat \<Rightarrow> number \<Rightarrow> error + int" where
  "num_to_fail_of total_edges failure_rate_percent =
     (case to_float failure_rate_percent of
        Inl e \<Rightarrow> Inl e
      | Inr x \<Rightarrow>
          (case to_float (Fin (of_nat total_edges)) of
             Inr (Fin t) \<Rightarrow> math_ceil (float_mul t (float_div_100 x))
           | Inr y \<Rightarrow> math_ceil y
           | Inl e \<Rightarrow> Inl e))"

text \<open>The loop body: \<^verbatim>\<open>if G.has_edge(u, v): G.remove_edge(u, v)\<close>. Behind the guard
  \<^verbatim>\<open>remove_edge\<close> cannot raise.\<close>

definition remove_step :: "node_id \<times> node_id \<Rightarrow> graph \<Rightarrow> graph" where
  "remove_step uv G =
     (if has_edge G (fst uv) (snd uv)
      then (case remove_edge G (fst uv) (snd uv) of Inr G' \<Rightarrow> G' | Inl e \<Rightarrow> G)
      else G)"

text \<open>
  The function mutates \<^verbatim>\<open>G\<close> and the global generator: the model returns the value (or
  the exception), the graph and the generator state after the call.
\<close>

definition model_link_failures ::
  "'r sampler \<Rightarrow> graph \<Rightarrow> number \<Rightarrow> 'r \<Rightarrow> (error + (node_id \<times> node_id) list) \<times> graph \<times> 'r" where
  "model_link_failures smp G failure_rate_percent r =
     (if le_zero failure_rate_percent then (Inr [], G, r)
      else
        let all_edges = edges G;
            total_edges = length all_edges
        in case num_to_fail_of total_edges failure_rate_percent of
             Inl e \<Rightarrow> (Inl e, G, r)
           | Inr num_to_fail \<Rightarrow>
               (case random_sample smp r all_edges num_to_fail of
                  (Inl e, r') \<Rightarrow> (Inl e, G, r')
                | (Inr edges_to_remove, r') \<Rightarrow>
                    (Inr edges_to_remove, fold remove_step edges_to_remove G, r')))"

text \<open>Small graphs for concrete evaluation: \<open>n\<close> links from one hub.\<close>

definition star_graph :: "nat \<Rightarrow> graph" where
  "star_graph n = fold (\<lambda>i G. add_edge G ''hub'' (node_H i) edge_host) [0..<n] empty_graph"

subsection \<open>Observations of a graph\<close>

text \<open>
  What the claims read from a graph: the attributes of a node (\<open>None\<close> for an absent
  node or key), the layer of a link, the node identifiers in table order. \<open>link_of\<close> is
  \<open>layer_of\<close> restricted to nodes of the graph; \<open>joins u v x y\<close> says that the pair
  \<open>(x, y)\<close> is the link between \<open>u\<close> and \<open>v\<close> in one of its two directions.
  \<open>is_fat_tree\<close> collects the attributes and links of the \<open>k\<close>-ary fat tree with
  \<open>K\<close> pods and \<open>kh\<close> switches per pod and layer.
\<close>

definition attr_of :: "graph \<Rightarrow> node_id \<Rightarrow> node_attrs option" where
  "attr_of G n = map_of (g_node G) n"

definition type_of :: "graph \<Rightarrow> node_id \<Rightarrow> node_type option" where
  "type_of G n = (case map_of (g_node G) n of None \<Rightarrow> None | Some a \<Rightarrow> a_type a)"

definition pod_of :: "graph \<Rightarrow> node_id \<Rightarrow> int option" where
  "pod_of G n = (case map_of (g_node G) n of None \<Rightarrow> None | Some a \<Rightarrow> a_pod a)"

definition anchor_of :: "graph \<Rightarrow> node_id \<Rightarrow> node_id option" where
  "anchor_of G n = (case map_of (g_node G) n of None \<Rightarrow> None | Some a \<Rightarrow> a_edge_anchor a)"

definition layer_of :: "graph \<Rightarrow> node_id \<Rightarrow> node_id \<Rightarrow> layer option" where
  "layer_of G u v = map_of (nbrs G u) v"

definition link_of :: "graph \<Rightarrow> node_id \<Rightarrow> node_id \<Rightarrow> layer option" where
  "link_of G u v = (if has_node G u then layer_of G u v else None)"

definition node_ids :: "graph \<Rightarrow> node_id list" where
  "node_ids G = map fst (g_node G)"

definition is_host_id :: "node_id \<Rightarrow> bool" where
  "is_host_id x = (take 2 x = ''H_'')"

definition host_ids :: "graph \<Rightarrow> node_id list" where
  "host_ids G = filter is_host_id (node_ids G)"

definition ins :: "'a \<Rightarrow> 'a list \<Rightarrow> 'a list" where
  "ins x xs = (if x \<in> set xs then xs else xs @ [x])"

definition joins :: "node_id \<Rightarrow> node_id \<Rightarrow> node_id \<Rightarrow> node_id \<Rightarrow> bool" where
  "joins u v x y \<longleftrightarrow> (x = u \<and> y = v) \<or> (x = v \<and> y = u)"

definition same_nodes :: "graph \<Rightarrow> graph \<Rightarrow> bool" where
  "same_nodes G G' \<longleftrightarrow>
     type_of G' = type_of G \<and> pod_of G' = pod_of G \<and> anchor_of G' = anchor_of G \<and>
     host_ids G' = host_ids G"

definition is_fat_tree :: "nat \<Rightarrow> nat \<Rightarrow> graph \<Rightarrow> bool" where
  "is_fat_tree K kh G \<longleftrightarrow>
     (\<forall>x. type_of G x =
        (if x \<in> node_H ` {0..<K * (kh * kh)} then Some host
         else if \<exists>p<K. x \<in> node_E p ` {..<kh} then Some edge
         else if \<exists>p<K. x \<in> node_A p ` {..<kh} then Some agg
         else if x \<in> node_C ` {..<kh * kh} then Some core else None)) \<and>
     (\<forall>x y. link_of G x y =
        (if \<exists>p<K. \<exists>a<kh. \<exists>off<kh. joins (node_A p a) (node_C (a * kh + off)) x y
         then Some agg_core
         else if \<exists>p<K. \<exists>a<kh. \<exists>e<kh. joins (node_A p a) (node_E p e) x y then Some agg_edge
         else if \<exists>p<K. \<exists>e<kh. \<exists>h \<in> {p * (kh * kh) + e * kh..<p * (kh * kh) + e * kh + kh}.
                   joins (node_E p e) (node_H h) x y
         then Some edge_host else None)) \<and>
     host_ids G = map node_H [0..<K * (kh * kh)] \<and>
     (\<forall>c<kh * kh. pod_of G (node_C c) = Some (- 1)) \<and>
     (\<forall>p<K. \<forall>i<kh. pod_of G (node_A p i) = Some (int p) \<and> pod_of G (node_E p i) = Some (int p)) \<and>
     (\<forall>p<K. \<forall>e<kh. \<forall>h<kh.
        pod_of G (node_H (p * (kh * kh) + e * kh + h)) = Some (int p) \<and>
        anchor_of G (node_H (p * (kh * kh) + e * kh + h)) = Some (node_E p e)) \<and>
     (\<forall>p<K. \<exists>pd. map_of (g_pod_data G) p = Some pd \<and>
        ps_agg pd = map (node_A p) [0..<kh] \<and> ps_edge pd = map (node_E p) [0..<kh])"

text \<open>\<^verbatim>\<open>G.neighbors(u)\<close>, and the neighbours of a given type.\<close>

definition neighbours :: "graph \<Rightarrow> node_id \<Rightarrow> node_id set" where
  "neighbours G u = set (map fst (nbrs G u))"

definition typed_neighbours :: "graph \<Rightarrow> node_type \<Rightarrow> node_id \<Rightarrow> node_id set" where
  "typed_neighbours G t u = {v \<in> neighbours G u. type_of G v = Some t}"

section \<open>Node identifiers are injective\<close>

lemma digit_char_inj: "d < 10 \<Longrightarrow> d' < 10 \<Longrightarrow> digit_char d = digit_char d' \<longleftrightarrow> d = d'"
  unfolding digit_char_def by (subst nth_eq_iff_index_eq) simp_all

lemma digit_char_mem: "d < 10 \<Longrightarrow> digit_char d \<in> set ''0123456789''"
  unfolding digit_char_def by (rule nth_mem) simp

lemma str_nat_digits: "set (str_nat n) \<subseteq> set ''0123456789''"
proof (induction n rule: str_nat.induct)
  case (1 n)
  show ?case
  proof (cases "n < 10")
    case True
    then show ?thesis using digit_char_mem [of n] by (subst str_nat.simps) simp
  next
    case False
    have "n mod 10 < 10" by simp
    then have "digit_char (n mod 10) \<in> set ''0123456789''" by (rule digit_char_mem)
    with False 1 show ?thesis by (subst str_nat.simps) simp
  qed
qed

lemma str_nat_no_underscore: "CHR ''_'' \<notin> set (str_nat n)"
  using str_nat_digits [of n] by auto

lemma str_nat_nonempty: "str_nat n \<noteq> []"
  by (subst str_nat.simps) simp

lemma str_nat_length: "10 \<le> n \<Longrightarrow> 2 \<le> length (str_nat n)"
  using str_nat_nonempty [of "n div 10"]
  by (subst str_nat.simps) (cases "str_nat (n div 10)"; simp)

lemma str_nat_small: "n < 10 \<Longrightarrow> str_nat n = [digit_char n]"
  by (subst str_nat.simps) simp

lemma str_nat_inj: "str_nat n = str_nat m \<longleftrightarrow> n = m"
proof
  show "str_nat n = str_nat m \<Longrightarrow> n = m"
  proof (induction n arbitrary: m rule: str_nat.induct)
    case (1 n)
    show ?case
    proof (cases "n < 10")
      case n: True
      show ?thesis
      proof (cases "m < 10")
        case True
        with n "1.prems" show ?thesis by (simp add: str_nat_small digit_char_inj)
      next
        case False
        then have "2 \<le> length (str_nat m)" by (simp add: str_nat_length)
        moreover from n have "length (str_nat n) = 1" by (simp add: str_nat_small)
        ultimately show ?thesis using "1.prems" by simp
      qed
    next
      case n: False
      show ?thesis
      proof (cases "m < 10")
        case True
        from n have "2 \<le> length (str_nat n)" by (simp add: str_nat_length)
        moreover from True have "length (str_nat m) = 1" by (simp add: str_nat_small)
        ultimately show ?thesis using "1.prems" by simp
      next
        case False
        have en: "str_nat n = str_nat (n div 10) @ [digit_char (n mod 10)]"
          using n by (subst str_nat.simps) simp
        have em: "str_nat m = str_nat (m div 10) @ [digit_char (m mod 10)]"
          using False by (subst str_nat.simps) simp
        from "1.prems" en em have a: "str_nat (n div 10) = str_nat (m div 10)"
          and b: "digit_char (n mod 10) = digit_char (m mod 10)" by simp_all
        from "1.IH" [OF n a] have "n div 10 = m div 10" .
        moreover from b have "n mod 10 = m mod 10" by (simp add: digit_char_inj)
        ultimately show ?thesis by (metis div_mult_mod_eq)
      qed
    qed
  qed
qed simp

lemma split_underscore:
  "CHR ''_'' \<notin> set xs \<Longrightarrow> CHR ''_'' \<notin> set xs' \<Longrightarrow>
   xs @ CHR ''_'' # ys = xs' @ CHR ''_'' # ys' \<longleftrightarrow> xs = xs' \<and> ys = ys'"
proof (induction xs arbitrary: xs')
  case Nil
  then show ?case by (cases xs') auto
next
  case (Cons x xs)
  then show ?case by (cases xs') auto
qed

lemma node_C_inj [simp]: "node_C c = node_C c' \<longleftrightarrow> c = c'"
  by (simp add: node_C_def str_nat_inj)

lemma node_H_inj [simp]: "node_H h = node_H h' \<longleftrightarrow> h = h'"
  by (simp add: node_H_def str_nat_inj)

lemma node_A_inj [simp]: "node_A p a = node_A p' a' \<longleftrightarrow> p = p' \<and> a = a'"
  by (simp add: node_A_def split_underscore str_nat_no_underscore str_nat_inj)

lemma node_E_inj [simp]: "node_E p e = node_E p' e' \<longleftrightarrow> p = p' \<and> e = e'"
  by (simp add: node_E_def split_underscore str_nat_no_underscore str_nat_inj)

lemma node_kinds_distinct [simp]:
  "node_C c \<noteq> node_A p a" "node_C c \<noteq> node_E p e" "node_C c \<noteq> node_H h"
  "node_A p a \<noteq> node_C c" "node_A p a \<noteq> node_E p' e" "node_A p a \<noteq> node_H h"
  "node_E p e \<noteq> node_C c" "node_E p e \<noteq> node_A p' a" "node_E p e \<noteq> node_H h"
  "node_H h \<noteq> node_C c" "node_H h \<noteq> node_A p a" "node_H h \<noteq> node_E p e"
  by (simp_all add: node_C_def node_A_def node_E_def node_H_def)

lemma is_host_id_simps [simp]:
  "is_host_id (node_H h)" "\<not> is_host_id (node_C c)" "\<not> is_host_id (node_A p a)"
  "\<not> is_host_id (node_E p e)"
  by (simp_all add: is_host_id_def node_H_def node_C_def node_A_def node_E_def)

lemma has_node_iff: "has_node G n \<longleftrightarrow> n \<in> set (node_ids G)"
  by (simp add: has_node_def node_ids_def map_of_eq_None_iff)

lemma keys_update: "map fst (AList.update k v al) = ins k (map fst al)"
  by (simp add: update_keys ins_def)

lemma filter_ins: "filter P (ins x xs) = (if P x then ins x (filter P xs) else filter P xs)"
  by (simp add: ins_def)

lemma node_ids_add_node: "node_ids (add_node G n a) = ins n (node_ids G)"
  by (simp add: add_node_def node_ids_def keys_update split: option.splits)

lemma has_node_add_node: "has_node (add_node G n a) x \<longleftrightarrow> x = n \<or> has_node G x"
  by (auto simp: has_node_iff node_ids_add_node ins_def)

lemma type_of_add_node:
  "type_of (add_node G n a) x = (if x = n then orelse (a_type a) (type_of G n) else type_of G x)"
  by (simp add: add_node_def type_of_def update_conv' attrs_update_def orelse_def split: option.splits)

lemma pod_of_add_node:
  "pod_of (add_node G n a) x = (if x = n then orelse (a_pod a) (pod_of G n) else pod_of G x)"
  by (simp add: add_node_def pod_of_def update_conv' attrs_update_def orelse_def split: option.splits)

lemma anchor_of_add_node:
  "anchor_of (add_node G n a) x =
     (if x = n then orelse (a_edge_anchor a) (anchor_of G n) else anchor_of G x)"
  by (simp add: add_node_def anchor_of_def update_conv' attrs_update_def orelse_def split: option.splits)

lemma nbrs_add_node:
  "nbrs (add_node G n a) x = (if x = n \<and> \<not> has_node G n then [] else nbrs G x)"
  by (simp add: add_node_def nbrs_def has_node_def update_conv' split: option.splits)

lemma link_of_add_node: "link_of (add_node G n a) x y = link_of G x y"
  by (auto simp: link_of_def layer_of_def has_node_add_node nbrs_add_node)

lemma node_ids_ensure_node: "node_ids (ensure_node G n) = ins n (node_ids G)"
  by (simp add: ensure_node_def node_ids_add_node has_node_iff ins_def)

lemma has_node_ensure_node: "has_node (ensure_node G n) x \<longleftrightarrow> x = n \<or> has_node G x"
  by (auto simp: has_node_iff node_ids_ensure_node ins_def)

lemma type_of_absent: "\<not> has_node G n \<Longrightarrow> type_of G n = None"
  and pod_of_absent: "\<not> has_node G n \<Longrightarrow> pod_of G n = None"
  and anchor_of_absent: "\<not> has_node G n \<Longrightarrow> anchor_of G n = None"
  by (simp_all add: has_node_def type_of_def pod_of_def anchor_of_def)

lemma type_of_ensure_node: "type_of (ensure_node G n) = type_of G"
  by (auto simp: ensure_node_def type_of_add_node no_attrs_def orelse_def type_of_absent)

lemma pod_of_ensure_node: "pod_of (ensure_node G n) = pod_of G"
  by (auto simp: ensure_node_def pod_of_add_node no_attrs_def orelse_def pod_of_absent)

lemma anchor_of_ensure_node: "anchor_of (ensure_node G n) = anchor_of G"
  by (auto simp: ensure_node_def anchor_of_add_node no_attrs_def orelse_def anchor_of_absent)

lemma link_of_ensure_node: "link_of (ensure_node G n) = link_of G"
  by (simp add: fun_eq_iff ensure_node_def link_of_add_node)

lemma g_node_set_adj: "g_node (set_adj G u v l) = g_node G"
  by (simp add: set_adj_def)

lemma has_node_set_adj: "has_node (set_adj G u v l) = has_node G"
  by (simp add: has_node_def g_node_set_adj fun_eq_iff)

lemma nbrs_set_adj:
  "nbrs (set_adj G u v l) x = (if x = u then AList.update v l (nbrs G u) else nbrs G x)"
  by (simp add: set_adj_def nbrs_def update_conv')

lemma link_of_set_adj:
  "has_node G u \<Longrightarrow>
   link_of (set_adj G u v l) x y = (if x = u \<and> y = v then Some l else link_of G x y)"
  by (simp add: link_of_def layer_of_def has_node_set_adj nbrs_set_adj update_conv')

lemma node_ids_add_edge: "node_ids (add_edge G u v l) = ins v (ins u (node_ids G))"
  by (simp add: add_edge_def node_ids_def g_node_set_adj)
     (simp add: node_ids_def [symmetric] node_ids_ensure_node)

lemma has_node_add_edge: "has_node (add_edge G u v l) x \<longleftrightarrow> x = u \<or> x = v \<or> has_node G x"
  by (auto simp: has_node_iff node_ids_add_edge ins_def)

lemma type_of_add_edge: "type_of (add_edge G u v l) = type_of G"
  by (simp add: fun_eq_iff add_edge_def type_of_def g_node_set_adj)
     (simp add: type_of_def [symmetric] type_of_ensure_node)

lemma pod_of_add_edge: "pod_of (add_edge G u v l) = pod_of G"
  by (simp add: fun_eq_iff add_edge_def pod_of_def g_node_set_adj)
     (simp add: pod_of_def [symmetric] pod_of_ensure_node)

lemma anchor_of_add_edge: "anchor_of (add_edge G u v l) = anchor_of G"
  by (simp add: fun_eq_iff add_edge_def anchor_of_def g_node_set_adj)
     (simp add: anchor_of_def [symmetric] anchor_of_ensure_node)

lemma link_of_add_edge:
  "link_of (add_edge G u v l) x y =
     (if (x = u \<and> y = v) \<or> (x = v \<and> y = u) then Some l else link_of G x y)"
proof -
  let ?G = "ensure_node (ensure_node G u) v"
  have u: "has_node ?G u" and v: "has_node ?G v"
    by (simp_all add: has_node_ensure_node)
  have v': "has_node (set_adj ?G u v l) v"
    using v by (simp add: has_node_set_adj)
  have a: "link_of (add_edge G u v l) x y =
      (if x = v \<and> y = u then Some l else link_of (set_adj ?G u v l) x y)"
    unfolding add_edge_def by (rule link_of_set_adj [OF v'])
  have b: "link_of (set_adj ?G u v l) x y = (if x = u \<and> y = v then Some l else link_of ?G x y)"
    by (rule link_of_set_adj [OF u])
  have c: "link_of ?G x y = link_of G x y"
    by (simp add: link_of_ensure_node)
  show ?thesis unfolding a b c by argo
qed

lemma host_ids_add_node:
  "host_ids (add_node G n a) = (if is_host_id n then ins n (host_ids G) else host_ids G)"
  by (simp add: host_ids_def node_ids_add_node filter_ins)

lemma host_ids_add_edge:
  "\<not> is_host_id u \<Longrightarrow> host_ids (add_edge G u v l) = (if is_host_id v then ins v (host_ids G) else host_ids G)"
  by (simp add: host_ids_def node_ids_add_edge filter_ins)

lemma link_of_add_edge_joins:
  "link_of (add_edge G u v l) x y = (if joins u v x y then Some l else link_of G x y)"
  by (simp add: link_of_add_edge joins_def)

lemma fold_upt_Suc: "fold f [0..<Suc n] s = f n (fold f [0..<n] s)"
  by simp

lemma anchor_of_add_node_None:
  "a_edge_anchor a = None \<Longrightarrow> anchor_of (add_node G n a) = anchor_of G"
  by (simp add: fun_eq_iff anchor_of_add_node orelse_def)

subsection \<open>core loop\<close>

lemma core_switches_loop:
  "cs_core_switches (fold core_step [0..<n] s) = cs_core_switches s @ map node_C [0..<n]"
  by (induction n) (simp_all add: core_step_def Let_def)

lemma type_of_core_loop:
  "type_of (cs_G (fold core_step [0..<n] s)) x =
     (if x \<in> node_C ` {..<n} then Some core else type_of (cs_G s) x)"
  by (induction n)
     (simp_all add: core_step_def Let_def type_of_add_node core_attrs_def orelse_def lessThan_Suc)

lemma pod_of_core_loop:
  "pod_of (cs_G (fold core_step [0..<n] s)) x =
     (if x \<in> node_C ` {..<n} then Some (- 1) else pod_of (cs_G s) x)"
  by (induction n)
     (simp_all add: core_step_def Let_def pod_of_add_node core_attrs_def orelse_def lessThan_Suc)

lemma anchor_of_core_loop:
  "anchor_of (cs_G (fold core_step [0..<n] s)) = anchor_of (cs_G s)"
  by (induction n) (simp_all add: core_step_def Let_def anchor_of_add_node_None core_attrs_def)

lemma link_of_core_loop:
  "link_of (cs_G (fold core_step [0..<n] s)) x y = link_of (cs_G s) x y"
  by (induction n) (simp_all add: core_step_def Let_def link_of_add_node)

lemma host_ids_core_loop:
  "host_ids (cs_G (fold core_step [0..<n] s)) = host_ids (cs_G s)"
  by (induction n) (simp_all add: core_step_def Let_def host_ids_add_node)

subsection \<open>aggregation loop\<close>

lemma agg_loop_pd:
  "ps_agg (bs_pd (fold (agg_step p) [0..<n] s)) = ps_agg (bs_pd s) @ map (node_A p) [0..<n]"
  "ps_edge (bs_pd (fold (agg_step p) [0..<n] s)) = ps_edge (bs_pd s)"
  "bs_cur (fold (agg_step p) [0..<n] s) = bs_cur s"
  by (induction n) (simp_all add: agg_step_def Let_def)

lemma type_of_agg_loop:
  "type_of (bs_G (fold (agg_step p) [0..<n] s)) x =
     (if x \<in> node_A p ` {..<n} then Some agg else type_of (bs_G s) x)"
  by (induction n)
     (simp_all add: agg_step_def Let_def type_of_add_node switch_attrs_def orelse_def lessThan_Suc)

lemma pod_of_agg_loop:
  "pod_of (bs_G (fold (agg_step p) [0..<n] s)) x =
     (if x \<in> node_A p ` {..<n} then Some (int p) else pod_of (bs_G s) x)"
  by (induction n)
     (simp_all add: agg_step_def Let_def pod_of_add_node switch_attrs_def orelse_def lessThan_Suc)

lemma anchor_of_agg_loop:
  "anchor_of (bs_G (fold (agg_step p) [0..<n] s)) = anchor_of (bs_G s)"
  by (induction n) (simp_all add: agg_step_def Let_def anchor_of_add_node_None switch_attrs_def)

lemma link_of_agg_loop:
  "link_of (bs_G (fold (agg_step p) [0..<n] s)) x y = link_of (bs_G s) x y"
  by (induction n) (simp_all add: agg_step_def Let_def link_of_add_node)

lemma host_ids_agg_loop:
  "host_ids (bs_G (fold (agg_step p) [0..<n] s)) = host_ids (bs_G s)"
  by (induction n) (simp_all add: agg_step_def Let_def host_ids_add_node)

subsection \<open>host loop\<close>

lemma host_step_obs:
  "ps_agg (bs_pd (host_step p e h s)) = ps_agg (bs_pd s)"
  "ps_edge (bs_pd (host_step p e h s)) = ps_edge (bs_pd s)"
  "bs_cur (host_step p e h s) = Suc (bs_cur s)"
  "type_of (bs_G (host_step p e h s)) x =
     (if x = node_H (bs_cur s) then Some host else type_of (bs_G s) x)"
  "pod_of (bs_G (host_step p e h s)) x =
     (if x = node_H (bs_cur s) then Some (int p) else pod_of (bs_G s) x)"
  "anchor_of (bs_G (host_step p e h s)) x =
     (if x = node_H (bs_cur s) then Some e else anchor_of (bs_G s) x)"
  "link_of (bs_G (host_step p e h s)) x y =
     (if joins e (node_H (bs_cur s)) x y then Some edge_host else link_of (bs_G s) x y)"
  by (simp_all add: host_step_def Let_def type_of_add_node type_of_add_edge pod_of_add_node
      pod_of_add_edge anchor_of_add_node anchor_of_add_edge link_of_add_node
      link_of_add_edge_joins host_attrs_def orelse_def)

lemma host_ids_host_step:
  "\<not> is_host_id e \<Longrightarrow>
   host_ids (bs_G (host_step p e h s)) = ins (node_H (bs_cur s)) (host_ids (bs_G s))"
  by (simp add: host_step_def Let_def host_ids_add_node host_ids_add_edge ins_def)

lemma host_loop_pd:
  "ps_agg (bs_pd (fold (host_step p e) [0..<n] s)) = ps_agg (bs_pd s)"
  "ps_edge (bs_pd (fold (host_step p e) [0..<n] s)) = ps_edge (bs_pd s)"
  "bs_cur (fold (host_step p e) [0..<n] s) = bs_cur s + n"
  by (induction n) (simp_all add: host_step_obs)

lemma type_of_host_loop:
  "type_of (bs_G (fold (host_step p e) [0..<n] s)) x =
     (if x \<in> node_H ` {bs_cur s..<bs_cur s + n} then Some host else type_of (bs_G s) x)"
  by (induction n) (simp_all add: host_step_obs host_loop_pd atLeastLessThanSuc)

lemma pod_of_host_loop:
  "pod_of (bs_G (fold (host_step p e) [0..<n] s)) x =
     (if x \<in> node_H ` {bs_cur s..<bs_cur s + n} then Some (int p) else pod_of (bs_G s) x)"
  by (induction n) (simp_all add: host_step_obs host_loop_pd atLeastLessThanSuc)

lemma anchor_of_host_loop:
  "anchor_of (bs_G (fold (host_step p e) [0..<n] s)) x =
     (if x \<in> node_H ` {bs_cur s..<bs_cur s + n} then Some e else anchor_of (bs_G s) x)"
  by (induction n) (simp_all add: host_step_obs host_loop_pd atLeastLessThanSuc)

lemma link_of_host_loop:
  "link_of (bs_G (fold (host_step p e) [0..<n] s)) x y =
     (if \<exists>h \<in> {bs_cur s..<bs_cur s + n}. joins e (node_H h) x y then Some edge_host
      else link_of (bs_G s) x y)"
  by (induction n) (simp_all add: host_step_obs host_loop_pd atLeastLessThanSuc)

lemma host_ids_host_loop:
  assumes "\<not> is_host_id e" and "set (host_ids (bs_G s)) \<subseteq> node_H ` {..<bs_cur s}"
  shows "host_ids (bs_G (fold (host_step p e) [0..<n] s)) =
           host_ids (bs_G s) @ map node_H [bs_cur s..<bs_cur s + n]"
proof (induction n)
  case 0
  show ?case by simp
next
  case (Suc n)
  have "node_H (bs_cur s + n) \<notin> set (host_ids (bs_G s))"
    using assms(2) by auto
  then show ?case
    using assms(1) Suc by (auto simp add: host_ids_host_step host_loop_pd ins_def)
qed

lemma block_lt: "e < n \<Longrightarrow> h < (kh::nat) \<Longrightarrow> e * kh + h < n * kh"
proof -
  assume a: "e < n" "h < kh"
  then have "e * kh + h < Suc e * kh" by simp
  also have "\<dots> \<le> n * kh" using a(1) by (intro mult_le_mono1) simp
  finally show ?thesis .
qed

lemma image_ivl_add:
  "x \<in> f ` {a..<a + (m + d)} \<longleftrightarrow> x \<in> f ` {a..<a + m} \<or> x \<in> f ` {a + m..<a + m + (d::nat)}"
proof -
  have "{a..<a + (m + d)} = {a..<a + m} \<union> {a + m..<a + m + d}" by auto
  then show ?thesis by auto
qed

subsection \<open>edge loop\<close>

lemma edge_step_obs:
  "ps_agg (bs_pd (edge_step kh p e s)) = ps_agg (bs_pd s)"
  "ps_edge (bs_pd (edge_step kh p e s)) = ps_edge (bs_pd s) @ [node_E p e]"
  "bs_cur (edge_step kh p e s) = bs_cur s + kh"
  "type_of (bs_G (edge_step kh p e s)) x =
     (if x \<in> node_H ` {bs_cur s..<bs_cur s + kh} then Some host
      else if x = node_E p e then Some edge else type_of (bs_G s) x)"
  "pod_of (bs_G (edge_step kh p e s)) x =
     (if x \<in> node_H ` {bs_cur s..<bs_cur s + kh} then Some (int p)
      else if x = node_E p e then Some (int p) else pod_of (bs_G s) x)"
  "anchor_of (bs_G (edge_step kh p e s)) x =
     (if x \<in> node_H ` {bs_cur s..<bs_cur s + kh} then Some (node_E p e)
      else anchor_of (bs_G s) x)"
  "link_of (bs_G (edge_step kh p e s)) x y =
     (if \<exists>h \<in> {bs_cur s..<bs_cur s + kh}. joins (node_E p e) (node_H h) x y
      then Some edge_host else link_of (bs_G s) x y)"
  by (simp_all add: edge_step_def Let_def host_loop_pd type_of_host_loop pod_of_host_loop
      anchor_of_host_loop link_of_host_loop type_of_add_node pod_of_add_node
      anchor_of_add_node_None link_of_add_node switch_attrs_def orelse_def)

lemma host_ids_edge_step:
  "set (host_ids (bs_G s)) \<subseteq> node_H ` {..<bs_cur s} \<Longrightarrow>
   host_ids (bs_G (edge_step kh p e s)) = host_ids (bs_G s) @ map node_H [bs_cur s..<bs_cur s + kh]"
  by (simp add: edge_step_def Let_def host_ids_host_loop host_ids_add_node)

lemma edge_loop_pd:
  "ps_agg (bs_pd (fold (edge_step kh p) [0..<n] s)) = ps_agg (bs_pd s)"
  "ps_edge (bs_pd (fold (edge_step kh p) [0..<n] s)) = ps_edge (bs_pd s) @ map (node_E p) [0..<n]"
  "bs_cur (fold (edge_step kh p) [0..<n] s) = bs_cur s + n * kh"
  by (induction n) (simp_all add: edge_step_obs)

lemma hosts_block_Suc:
  "x \<in> node_H ` {c..<c + Suc n * kh} \<longleftrightarrow>
     x \<in> node_H ` {c..<c + n * kh} \<or> x \<in> node_H ` {c + n * kh..<c + n * kh + kh}"
proof -
  have "{c..<c + Suc n * kh} = {c..<c + n * kh} \<union> {c + n * kh..<c + n * kh + kh}" by auto
  then show ?thesis by auto
qed

lemma type_of_edge_loop:
  "type_of (bs_G (fold (edge_step kh p) [0..<n] s)) x =
     (if x \<in> node_H ` {bs_cur s..<bs_cur s + n * kh} then Some host
      else if x \<in> node_E p ` {..<n} then Some edge else type_of (bs_G s) x)"
proof (induction n)
  case 0
  show ?case by simp
next
  case (Suc n)
  show ?case
    unfolding fold_upt_Suc edge_step_obs edge_loop_pd Suc hosts_block_Suc lessThan_Suc
    by auto
qed

lemma pod_of_edge_loop:
  "pod_of (bs_G (fold (edge_step kh p) [0..<n] s)) x =
     (if x \<in> node_H ` {bs_cur s..<bs_cur s + n * kh} then Some (int p)
      else if x \<in> node_E p ` {..<n} then Some (int p) else pod_of (bs_G s) x)"
proof (induction n)
  case 0
  show ?case by simp
next
  case (Suc n)
  show ?case
    unfolding fold_upt_Suc edge_step_obs edge_loop_pd Suc hosts_block_Suc lessThan_Suc
    by auto
qed

lemma link_of_edge_loop:
  "link_of (bs_G (fold (edge_step kh p) [0..<n] s)) x y =
     (if \<exists>e<n. \<exists>h \<in> {bs_cur s + e * kh..<bs_cur s + e * kh + kh}. joins (node_E p e) (node_H h) x y
      then Some edge_host else link_of (bs_G s) x y)"
proof (induction n)
  case 0
  show ?case by simp
next
  case (Suc n)
  show ?case
    unfolding fold_upt_Suc edge_step_obs edge_loop_pd Suc less_Suc_eq
    by auto
qed

lemma anchor_of_edge_loop_other:
  "x \<notin> node_H ` {bs_cur s..<bs_cur s + n * kh} \<Longrightarrow>
   anchor_of (bs_G (fold (edge_step kh p) [0..<n] s)) x = anchor_of (bs_G s) x"
proof (induction n)
  case 0
  show ?case by simp
next
  case (Suc n)
  then show ?case
    unfolding fold_upt_Suc edge_step_obs edge_loop_pd hosts_block_Suc
    by auto
qed

lemma anchor_of_edge_loop:
  "e < n \<Longrightarrow> h < kh \<Longrightarrow>
   anchor_of (bs_G (fold (edge_step kh p) [0..<n] s)) (node_H (bs_cur s + e * kh + h)) =
     Some (node_E p e)"
proof (induction n)
  case 0
  then show ?case by simp
next
  case (Suc n)
  show ?case
  proof (cases "e = n")
    case True
    with Suc.prems show ?thesis
      unfolding fold_upt_Suc edge_step_obs edge_loop_pd by simp
  next
    case False
    with Suc.prems have e: "e < n" by simp
    have "e * kh + h < n * kh" using e Suc.prems(2) by (rule block_lt)
    then have nin: "node_H (bs_cur s + e * kh + h)
        \<notin> node_H ` {bs_cur s + n * kh..<bs_cur s + n * kh + kh}"
      by (simp add: image_iff)
    show ?thesis
      unfolding fold_upt_Suc edge_step_obs edge_loop_pd
      by (simp only: nin if_False Suc.IH [OF e Suc.prems(2)])
  qed
qed

lemma host_ids_edge_loop:
  assumes "set (host_ids (bs_G s)) \<subseteq> node_H ` {..<bs_cur s}"
  shows "host_ids (bs_G (fold (edge_step kh p) [0..<n] s)) =
           host_ids (bs_G s) @ map node_H [bs_cur s..<bs_cur s + n * kh]"
proof (induction n)
  case 0
  show ?case by simp
next
  case (Suc n)
  let ?s = "fold (edge_step kh p) [0..<n] s"
  have sub: "set (host_ids (bs_G ?s)) \<subseteq> node_H ` {..<bs_cur ?s}"
    using assms by (auto simp add: Suc edge_loop_pd)
  have "bs_cur s + Suc n * kh = bs_cur s + n * kh + kh" by simp
  then have "[bs_cur s..<bs_cur s + Suc n * kh] = [bs_cur s..<bs_cur s + n * kh + kh]"
    by (rule arg_cong)
  also have "\<dots> = [bs_cur s..<bs_cur s + n * kh] @ [bs_cur s + n * kh..<bs_cur s + n * kh + kh]"
    by (rule upt_add_eq_append) simp
  finally have "[bs_cur s..<bs_cur s + n * kh] @ [bs_cur s + n * kh..<bs_cur s + n * kh + kh]
        = [bs_cur s..<bs_cur s + Suc n * kh]" by simp
  then show ?case
    unfolding fold_upt_Suc host_ids_edge_step [OF sub] Suc edge_loop_pd
    by (simp del: mult_Suc flip: map_append)
qed

subsection \<open>one pod\<close>

lemma pod_step_cur: "ns_cur (pod_step kh p s) = ns_cur s + kh * kh"
  by (simp add: pod_step_def Let_def edge_loop_pd agg_loop_pd)

lemma pod_step_pods_other:
  "q \<noteq> p \<Longrightarrow> map_of (ns_pods (pod_step kh p s)) q = map_of (ns_pods s) q"
  by (simp add: pod_step_def Let_def update_conv')

lemma pod_step_pods_same:
  "\<exists>pd. map_of (ns_pods (pod_step kh p s)) p = Some pd
        \<and> ps_agg pd = map (node_A p) [0..<kh] \<and> ps_edge pd = map (node_E p) [0..<kh]"
  by (simp add: pod_step_def Let_def update_conv' edge_loop_pd agg_loop_pd)

lemma type_of_pod_step:
  "type_of (ns_G (pod_step kh p s)) x =
     (if x \<in> node_H ` {ns_cur s..<ns_cur s + kh * kh} then Some host
      else if x \<in> node_E p ` {..<kh} then Some edge
      else if x \<in> node_A p ` {..<kh} then Some agg else type_of (ns_G s) x)"
  by (simp add: pod_step_def Let_def type_of_edge_loop type_of_agg_loop agg_loop_pd)

lemma pod_of_pod_step:
  "pod_of (ns_G (pod_step kh p s)) x =
     (if x \<in> node_H ` {ns_cur s..<ns_cur s + kh * kh} \<union> node_E p ` {..<kh} \<union> node_A p ` {..<kh}
      then Some (int p) else pod_of (ns_G s) x)"
  by (simp add: pod_step_def Let_def pod_of_edge_loop pod_of_agg_loop agg_loop_pd)

lemma link_of_pod_step:
  "link_of (ns_G (pod_step kh p s)) x y =
     (if \<exists>e<kh. \<exists>h \<in> {ns_cur s + e * kh..<ns_cur s + e * kh + kh}. joins (node_E p e) (node_H h) x y
      then Some edge_host else link_of (ns_G s) x y)"
  by (auto simp add: pod_step_def Let_def link_of_edge_loop link_of_agg_loop agg_loop_pd)

lemma anchor_of_pod_step_other:
  "x \<notin> node_H ` {ns_cur s..<ns_cur s + kh * kh} \<Longrightarrow>
   anchor_of (ns_G (pod_step kh p s)) x = anchor_of (ns_G s) x"
  by (simp add: pod_step_def Let_def anchor_of_edge_loop_other anchor_of_agg_loop agg_loop_pd)

lemma anchor_of_pod_step:
  "e < kh \<Longrightarrow> h < kh \<Longrightarrow>
   anchor_of (ns_G (pod_step kh p s)) (node_H (ns_cur s + e * kh + h)) = Some (node_E p e)"
  using anchor_of_edge_loop [of e kh h kh p
      "fold (agg_step p) [0..<kh] \<lparr>bs_G = ns_G s, bs_pd = \<lparr>ps_agg = [], ps_edge = [], ps_host_to_edge = []\<rparr>, bs_cur = ns_cur s\<rparr>"]
  by (simp add: pod_step_def Let_def agg_loop_pd)

lemma host_ids_pod_step:
  "set (host_ids (ns_G s)) \<subseteq> node_H ` {..<ns_cur s} \<Longrightarrow>
   host_ids (ns_G (pod_step kh p s)) = host_ids (ns_G s) @ map node_H [ns_cur s..<ns_cur s + kh * kh]"
  by (simp add: pod_step_def Let_def host_ids_edge_loop host_ids_agg_loop agg_loop_pd)

subsection \<open>all pods\<close>

lemma pod_loop_cur: "ns_cur (fold (pod_step kh) [0..<n] s) = ns_cur s + n * (kh * kh)"
  by (induction n) (simp_all add: pod_step_cur)

lemma pod_loop_pods:
  "p < n \<Longrightarrow>
   \<exists>pd. map_of (ns_pods (fold (pod_step kh) [0..<n] s)) p = Some pd
        \<and> ps_agg pd = map (node_A p) [0..<kh] \<and> ps_edge pd = map (node_E p) [0..<kh]"
proof (induction n)
  case 0
  then show ?case by simp
next
  case (Suc n)
  show ?case
  proof (cases "p = n")
    case True
    then show ?thesis unfolding fold_upt_Suc by (simp add: pod_step_pods_same)
  next
    case False
    with Suc.prems have "p < n" by simp
    with Suc.IH False show ?thesis unfolding fold_upt_Suc by (simp add: pod_step_pods_other)
  qed
qed

lemma type_of_pod_loop:
  "type_of (ns_G (fold (pod_step kh) [0..<n] s)) x =
     (if x \<in> node_H ` {ns_cur s..<ns_cur s + n * (kh * kh)} then Some host
      else if \<exists>p<n. x \<in> node_E p ` {..<kh} then Some edge
      else if \<exists>p<n. x \<in> node_A p ` {..<kh} then Some agg else type_of (ns_G s) x)"
proof (induction n)
  case 0
  show ?case by simp
next
  case (Suc n)
  show ?case
    unfolding fold_upt_Suc type_of_pod_step pod_loop_cur Suc hosts_block_Suc less_Suc_eq
    by auto
qed

lemma link_of_pod_loop:
  "link_of (ns_G (fold (pod_step kh) [0..<n] s)) x y =
     (if \<exists>p<n. \<exists>e<kh. \<exists>h \<in> {ns_cur s + p * (kh * kh) + e * kh..<ns_cur s + p * (kh * kh) + e * kh + kh}.
           joins (node_E p e) (node_H h) x y
      then Some edge_host else link_of (ns_G s) x y)"
proof (induction n)
  case 0
  show ?case by simp
next
  case (Suc n)
  show ?case
    unfolding fold_upt_Suc link_of_pod_step pod_loop_cur Suc less_Suc_eq
    by auto
qed

lemma pod_of_pod_loop:
  "p < n \<Longrightarrow>
   x \<in> node_H ` {ns_cur s + p * (kh * kh)..<ns_cur s + p * (kh * kh) + kh * kh}
       \<union> node_E p ` {..<kh} \<union> node_A p ` {..<kh} \<Longrightarrow>
   pod_of (ns_G (fold (pod_step kh) [0..<n] s)) x = Some (int p)"
proof (induction n)
  case 0
  then show ?case by simp
next
  case (Suc n)
  show ?case
  proof (cases "p = n")
    case True
    with Suc.prems(2) show ?thesis
      unfolding fold_upt_Suc pod_of_pod_step pod_loop_cur by simp
  next
    case False
    with Suc.prems have p: "p < n" by simp
    have "Suc p * (kh * kh) \<le> n * (kh * kh)"
      using p by (intro mult_le_mono1) simp
    then have "{ns_cur s + p * (kh * kh)..<ns_cur s + p * (kh * kh) + kh * kh}
        \<inter> {ns_cur s + n * (kh * kh)..<ns_cur s + n * (kh * kh) + kh * kh} = {}"
      by auto
    then have "x \<notin> node_H ` {ns_cur s + n * (kh * kh)..<ns_cur s + n * (kh * kh) + kh * kh}
       \<union> node_E n ` {..<kh} \<union> node_A n ` {..<kh}"
      using Suc.prems(2) False by (auto simp del: mult_Suc)
    then show ?thesis
      unfolding fold_upt_Suc pod_of_pod_step pod_loop_cur
      by (simp only: if_False Suc.IH [OF p Suc.prems(2)])
  qed
qed

lemma anchor_of_pod_loop:
  "p < n \<Longrightarrow> e < kh \<Longrightarrow> h < kh \<Longrightarrow>
   anchor_of (ns_G (fold (pod_step kh) [0..<n] s)) (node_H (ns_cur s + p * (kh * kh) + e * kh + h)) =
     Some (node_E p e)"
proof (induction n)
  case 0
  then show ?case by simp
next
  case (Suc n)
  show ?case
  proof (cases "p = n")
    case True
    with Suc.prems show ?thesis
      unfolding fold_upt_Suc
      using anchor_of_pod_step [of e kh h n "fold (pod_step kh) [0..<n] s"]
      by (simp add: pod_loop_cur)
  next
    case False
    with Suc.prems have p: "p < n" by simp
    have "e * kh + h < kh * kh" using Suc.prems(2,3) by (rule block_lt)
    with p have "p * (kh * kh) + (e * kh + h) < n * (kh * kh)"
      by (rule block_lt)
    then have nin: "node_H (ns_cur s + p * (kh * kh) + e * kh + h)
        \<notin> node_H ` {ns_cur (fold (pod_step kh) [0..<n] s)..<ns_cur (fold (pod_step kh) [0..<n] s) + kh * kh}"
      by (simp add: image_iff pod_loop_cur)
    show ?thesis
      unfolding fold_upt_Suc anchor_of_pod_step_other [OF nin]
      by (rule Suc.IH [OF p Suc.prems(2,3)])
  qed
qed

lemma host_ids_pod_loop:
  assumes "set (host_ids (ns_G s)) \<subseteq> node_H ` {..<ns_cur s}"
  shows "host_ids (ns_G (fold (pod_step kh) [0..<n] s)) =
           host_ids (ns_G s) @ map node_H [ns_cur s..<ns_cur s + n * (kh * kh)]"
proof (induction n)
  case 0
  show ?case by simp
next
  case (Suc n)
  let ?s = "fold (pod_step kh) [0..<n] s"
  let ?c = "ns_cur s" and ?m = "n * (kh * kh)" and ?d = "kh * kh"
  have sub: "set (host_ids (ns_G ?s)) \<subseteq> node_H ` {..<ns_cur ?s}"
    using assms by (auto simp add: Suc pod_loop_cur)
  have "?c + Suc n * ?d = ?c + ?m + ?d" by simp
  then have "[?c..<?c + Suc n * ?d] = [?c..<?c + ?m + ?d]"
    by (rule arg_cong)
  also have "\<dots> = [?c..<?c + ?m] @ [?c + ?m..<?c + ?m + ?d]"
    by (rule upt_add_eq_append) simp
  finally have "[?c..<?c + ?m] @ [?c + ?m..<?c + ?m + ?d] = [?c..<?c + Suc n * ?d]" by simp
  then show ?case
    unfolding fold_upt_Suc host_ids_pod_step [OF sub] Suc pod_loop_cur
    by (simp del: mult_Suc flip: map_append)
qed

lemma same_nodes_refl: "same_nodes G G"
  by (simp add: same_nodes_def)

lemma same_nodes_trans: "same_nodes G G' \<Longrightarrow> same_nodes G' G'' \<Longrightarrow> same_nodes G G''"
  by (simp add: same_nodes_def)

lemma same_nodes_add_edge:
  "\<not> is_host_id u \<Longrightarrow> \<not> is_host_id v \<Longrightarrow> same_nodes G (add_edge G u v l)"
  by (simp add: same_nodes_def type_of_add_edge pod_of_add_edge anchor_of_add_edge host_ids_add_edge)

lemma for_each_append:
  "for_each (xs @ ys) body s =
     (case for_each xs body s of Inl e \<Rightarrow> Inl e | Inr s' \<Rightarrow> for_each ys body s')"
  by (induction xs arbitrary: s) (simp_all split: sum.splits)

lemma for_each_snoc:
  "for_each (xs @ [x]) body s =
     (case for_each xs body s of Inl e \<Rightarrow> Inl e | Inr s' \<Rightarrow> body x s')"
  by (simp add: for_each_append split: sum.splits)

lemma for_each_upt_Suc:
  "for_each [0..<Suc n] body s =
     (case for_each [0..<n] body s of Inl e \<Rightarrow> Inl e | Inr s' \<Rightarrow> body n s')"
  by (simp add: for_each_snoc)

subsection \<open>aggregation to edge links\<close>

lemma inner_agg_edge:
  assumes "\<not> is_host_id a" "\<forall>e \<in> set es. \<not> is_host_id e"
  shows "same_nodes G (fold (\<lambda>edge_node G'. add_edge G' a edge_node agg_edge) es G)
     \<and> (\<forall>x y. link_of (fold (\<lambda>edge_node G'. add_edge G' a edge_node agg_edge) es G) x y =
          (if \<exists>e \<in> set es. joins a e x y then Some agg_edge else link_of G x y))"
  using assms(2)
proof (induction es arbitrary: G)
  case Nil
  show ?case by (simp add: same_nodes_refl)
next
  case (Cons e es)
  let ?G1 = "add_edge G a e agg_edge"
  have s1: "same_nodes G ?G1"
    using assms(1) Cons.prems by (simp add: same_nodes_add_edge)
  have IH: "same_nodes ?G1 (fold (\<lambda>edge_node G'. add_edge G' a edge_node agg_edge) es ?G1)
     \<and> (\<forall>x y. link_of (fold (\<lambda>edge_node G'. add_edge G' a edge_node agg_edge) es ?G1) x y =
          (if \<exists>e \<in> set es. joins a e x y then Some agg_edge else link_of ?G1 x y))"
    using Cons.prems by (intro Cons.IH) simp
  show ?case
    using IH s1 by (auto simp add: link_of_add_edge_joins intro: same_nodes_trans)
qed

lemma agg_edge_links_obs:
  assumes "\<forall>a \<in> set as. \<not> is_host_id a" "\<forall>e \<in> set es. \<not> is_host_id e"
  shows "same_nodes G (agg_edge_links as es G)
     \<and> (\<forall>x y. link_of (agg_edge_links as es G) x y =
          (if \<exists>a \<in> set as. \<exists>e \<in> set es. joins a e x y then Some agg_edge else link_of G x y))"
  using assms(1) unfolding agg_edge_links_def
proof (induction as arbitrary: G)
  case Nil
  show ?case by (simp add: same_nodes_refl)
next
  case (Cons a as)
  let ?f = "\<lambda>agg_node. fold (\<lambda>edge_node G'. add_edge G' agg_node edge_node agg_edge) es"
  let ?G1 = "?f a G"
  have a: "\<not> is_host_id a" using Cons.prems by simp
  note s1 = inner_agg_edge [OF a assms(2), of G]
  have IH: "same_nodes ?G1 (fold ?f as ?G1)
     \<and> (\<forall>x y. link_of (fold ?f as ?G1) x y =
          (if \<exists>a \<in> set as. \<exists>e \<in> set es. joins a e x y then Some agg_edge else link_of ?G1 x y))"
    using Cons.prems by (intro Cons.IH) simp
  show ?case
    using IH s1 by (auto intro: same_nodes_trans)
qed

subsection \<open>striping\<close>

lemma stripe_inner:
  assumes "\<not> is_host_id a" "\<forall>c \<in> set cs. \<not> is_host_id c"
  shows "start + n \<le> length cs \<Longrightarrow>
     \<exists>G'. for_each [0..<n] (stripe_step cs a start) G = Inr G' \<and> same_nodes G G'
       \<and> (\<forall>x y. link_of G' x y =
            (if \<exists>off<n. joins a (cs ! (start + off)) x y then Some agg_core else link_of G x y))"
proof (induction n)
  case 0
  show ?case by (simp add: same_nodes_refl)
next
  case (Suc n)
  then obtain G' where G': "for_each [0..<n] (stripe_step cs a start) G = Inr G'"
    "same_nodes G G'"
    "\<And>x y. link_of G' x y =
       (if \<exists>off<n. joins a (cs ! (start + off)) x y then Some agg_core else link_of G x y)"
    by auto
  have len: "start + n < length cs" using Suc.prems by simp
  then have nh: "\<not> is_host_id (cs ! (start + n))" using assms(2) by simp
  let ?G'' = "add_edge G' a (cs ! (start + n)) agg_core"
  have "for_each [0..<Suc n] (stripe_step cs a start) G = Inr ?G''"
    unfolding for_each_upt_Suc G'(1) using len by (simp add: stripe_step_def)
  moreover have "same_nodes G ?G''"
    using G'(2) same_nodes_add_edge [OF assms(1) nh] by (rule same_nodes_trans)
  moreover have "\<And>x y. link_of ?G'' x y =
       (if \<exists>off<Suc n. joins a (cs ! (start + off)) x y then Some agg_core else link_of G x y)"
    by (auto simp add: link_of_add_edge_joins G'(3) less_Suc_eq)
  ultimately show ?case by blast
qed

lemma joins_excl:
  "joins u v x y \<Longrightarrow> joins u' v' x y \<Longrightarrow> (u = u' \<and> v = v') \<or> (u = v' \<and> v = u')"
  unfolding joins_def by metis

lemma joins_AE_AC: "joins (node_A p a) (node_E q e) x y \<Longrightarrow> joins (node_A p' a') (node_C c) x y \<Longrightarrow> False"
  by (drule (1) joins_excl) simp

lemma joins_EH_AC: "joins (node_E q e) (node_H h) x y \<Longrightarrow> joins (node_A p' a') (node_C c) x y \<Longrightarrow> False"
  by (drule (1) joins_excl) simp

lemma joins_EH_AE: "joins (node_E q e) (node_H h) x y \<Longrightarrow> joins (node_A p' a') (node_E p e') x y \<Longrightarrow> False"
  by (drule (1) joins_excl) simp

lemma enumerate_map_upt_Suc:
  "enumerate 0 (map f [0..<Suc n]) = enumerate 0 (map f [0..<n]) @ [(n, f n)]"
  by (simp add: enumerate_append_eq)

lemma stripe_all:
  "n * kh \<le> m \<Longrightarrow>
     \<exists>G'. for_each (enumerate 0 (map (node_A p) [0..<n])) (stripe kh (map node_C [0..<m])) G = Inr G'
       \<and> same_nodes G G'
       \<and> (\<forall>x y. link_of G' x y =
            (if \<exists>a<n. \<exists>off<kh. joins (node_A p a) (node_C (a * kh + off)) x y
             then Some agg_core else link_of G x y))"
proof (induction n)
  case 0
  show ?case by (simp add: same_nodes_refl)
next
  case (Suc n)
  let ?cs = "map node_C [0..<m]"
  from Suc.prems have le: "n * kh \<le> m" and le': "n * kh + kh \<le> length ?cs" by simp_all
  from Suc.IH [OF le] obtain G' where G':
    "for_each (enumerate 0 (map (node_A p) [0..<n])) (stripe kh ?cs) G = Inr G'"
    "same_nodes G G'"
    "\<And>x y. link_of G' x y =
       (if \<exists>a<n. \<exists>off<kh. joins (node_A p a) (node_C (a * kh + off)) x y
        then Some agg_core else link_of G x y)"
    by auto
  have nh: "\<forall>c \<in> set ?cs. \<not> is_host_id c" by auto
  from stripe_inner [OF is_host_id_simps(3) nh le', of p n G'] obtain G'' where G'':
    "for_each [0..<kh] (stripe_step ?cs (node_A p n) (n * kh)) G' = Inr G''"
    "same_nodes G' G''"
    "\<And>x y. link_of G'' x y =
       (if \<exists>off<kh. joins (node_A p n) (?cs ! (n * kh + off)) x y then Some agg_core
        else link_of G' x y)"
    by auto
  have nth: "\<And>off. off < kh \<Longrightarrow> ?cs ! (n * kh + off) = node_C (n * kh + off)"
    using le' by simp
  have "for_each (enumerate 0 (map (node_A p) [0..<Suc n])) (stripe kh ?cs) G = Inr G''"
    unfolding enumerate_map_upt_Suc for_each_snoc G'(1) using G''(1)
    by (simp add: stripe_def)
  moreover have "same_nodes G G''"
    using G'(2) G''(2) by (rule same_nodes_trans)
  moreover have "\<And>x y. link_of G'' x y =
       (if \<exists>a<Suc n. \<exists>off<kh. joins (node_A p a) (node_C (a * kh + off)) x y
        then Some agg_core else link_of G x y)"
    unfolding G''(3) G'(3) less_Suc_eq using nth by auto
  ultimately show ?case by blast
qed

lemma link_pod_obs:
  assumes "map_of pods p = Some pd" "ps_agg pd = map (node_A p) [0..<kh]"
    "ps_edge pd = map (node_E p) [0..<kh]"
  shows "\<exists>G'. link_pod kh (map node_C [0..<kh * kh]) pods p G = Inr G'
       \<and> same_nodes G G'
       \<and> (\<forall>x y. link_of G' x y =
            (if \<exists>a<kh. \<exists>off<kh. joins (node_A p a) (node_C (a * kh + off)) x y
             then Some agg_core
             else if \<exists>a<kh. \<exists>e<kh. joins (node_A p a) (node_E p e) x y then Some agg_edge
             else link_of G x y))"
proof -
  let ?G1 = "agg_edge_links (map (node_A p) [0..<kh]) (map (node_E p) [0..<kh]) G"
  have g1: "same_nodes G ?G1"
    "\<And>x y. link_of ?G1 x y =
       (if \<exists>a \<in> set (map (node_A p) [0..<kh]). \<exists>e \<in> set (map (node_E p) [0..<kh]). joins a e x y
        then Some agg_edge else link_of G x y)"
    using agg_edge_links_obs [of "map (node_A p) [0..<kh]" "map (node_E p) [0..<kh]" G]
    by auto
  have ae: "\<And>x y. link_of ?G1 x y =
       (if \<exists>a<kh. \<exists>e<kh. joins (node_A p a) (node_E p e) x y then Some agg_edge else link_of G x y)"
    unfolding g1(2) by (auto simp add: image_iff)
  from stripe_all [of kh kh "kh * kh" p ?G1] obtain G' where G':
    "for_each (enumerate 0 (map (node_A p) [0..<kh])) (stripe kh (map node_C [0..<kh * kh])) ?G1 = Inr G'"
    "same_nodes ?G1 G'"
    "\<And>x y. link_of G' x y =
       (if \<exists>a<kh. \<exists>off<kh. joins (node_A p a) (node_C (a * kh + off)) x y
        then Some agg_core else link_of ?G1 x y)"
    by auto
  have "link_pod kh (map node_C [0..<kh * kh]) pods p G = Inr G'"
    using assms G'(1) by (simp add: link_pod_def Let_def)
  moreover have "same_nodes G G'"
    using g1(1) G'(2) by (rule same_nodes_trans)
  moreover have "\<And>x y. link_of G' x y =
            (if \<exists>a<kh. \<exists>off<kh. joins (node_A p a) (node_C (a * kh + off)) x y
             then Some agg_core
             else if \<exists>a<kh. \<exists>e<kh. joins (node_A p a) (node_E p e) x y then Some agg_edge
             else link_of G x y)"
    unfolding G'(3) ae by (rule refl)
  ultimately show ?thesis by blast
qed

lemma link_pods_obs:
  assumes "\<forall>p<n. \<exists>pd. map_of pods p = Some pd \<and> ps_agg pd = map (node_A p) [0..<kh]
      \<and> ps_edge pd = map (node_E p) [0..<kh]"
  shows "\<exists>G'. for_each [0..<n] (link_pod kh (map node_C [0..<kh * kh]) pods) G = Inr G'
       \<and> same_nodes G G'
       \<and> (\<forall>x y. link_of G' x y =
            (if \<exists>p<n. \<exists>a<kh. \<exists>off<kh. joins (node_A p a) (node_C (a * kh + off)) x y
             then Some agg_core
             else if \<exists>p<n. \<exists>a<kh. \<exists>e<kh. joins (node_A p a) (node_E p e) x y then Some agg_edge
             else link_of G x y))"
  using assms
proof (induction n)
  case 0
  show ?case by (simp add: same_nodes_refl)
next
  case (Suc n)
  let ?cs = "map node_C [0..<kh * kh]"
  from Suc obtain G' where G':
    "for_each [0..<n] (link_pod kh ?cs pods) G = Inr G'"
    "same_nodes G G'"
    "\<And>x y. link_of G' x y =
       (if \<exists>p<n. \<exists>a<kh. \<exists>off<kh. joins (node_A p a) (node_C (a * kh + off)) x y
        then Some agg_core
        else if \<exists>p<n. \<exists>a<kh. \<exists>e<kh. joins (node_A p a) (node_E p e) x y then Some agg_edge
        else link_of G x y)"
    by auto
  from Suc.prems obtain pd where pd: "map_of pods n = Some pd"
    "ps_agg pd = map (node_A n) [0..<kh]" "ps_edge pd = map (node_E n) [0..<kh]"
    by auto
  from link_pod_obs [OF pd, of G'] obtain G'' where G'':
    "link_pod kh ?cs pods n G' = Inr G''"
    "same_nodes G' G''"
    "\<And>x y. link_of G'' x y =
       (if \<exists>a<kh. \<exists>off<kh. joins (node_A n a) (node_C (a * kh + off)) x y
        then Some agg_core
        else if \<exists>a<kh. \<exists>e<kh. joins (node_A n a) (node_E n e) x y then Some agg_edge
        else link_of G' x y)"
    by auto
  have "for_each [0..<Suc n] (link_pod kh ?cs pods) G = Inr G''"
    unfolding for_each_upt_Suc G'(1) using G''(1) by simp
  moreover have "same_nodes G G''"
    using G'(2) G''(2) by (rule same_nodes_trans)
  moreover have "\<And>x y. link_of G'' x y =
       (if \<exists>p<Suc n. \<exists>a<kh. \<exists>off<kh. joins (node_A p a) (node_C (a * kh + off)) x y
        then Some agg_core
        else if \<exists>p<Suc n. \<exists>a<kh. \<exists>e<kh. joins (node_A p a) (node_E p e) x y then Some agg_edge
        else link_of G x y)"
    unfolding G''(3) G'(3) less_Suc_eq by (auto dest: joins_AE_AC)
  ultimately show ?case by blast
qed

lemma obs_empty_graph:
  "type_of empty_graph x = None" "link_of empty_graph x y = None" "host_ids empty_graph = []"
  "pod_of empty_graph x = None"
  by (simp_all add: empty_graph_def type_of_def link_of_def has_node_def host_ids_def node_ids_def
      pod_of_def)

lemma obs_meta:
  "type_of (G\<lparr>g_params := a, g_pod_data := b\<rparr>) = type_of G"
  "pod_of (G\<lparr>g_params := a, g_pod_data := b\<rparr>) = pod_of G"
  "anchor_of (G\<lparr>g_params := a, g_pod_data := b\<rparr>) = anchor_of G"
  "link_of (G\<lparr>g_params := a, g_pod_data := b\<rparr>) = link_of G"
  "host_ids (G\<lparr>g_params := a, g_pod_data := b\<rparr>) = host_ids G"
  by (simp_all add: fun_eq_iff type_of_def pod_of_def anchor_of_def link_of_def host_ids_def
      node_ids_def has_node_def layer_of_def nbrs_def)

lemma pod_of_pod_loop_core:
  "pod_of (ns_G (fold (pod_step kh) [0..<n] s)) (node_C c) = pod_of (ns_G s) (node_C c)"
  by (induction n) (auto simp add: pod_of_pod_step)

lemma build_graph_fat_tree:
  assumes "p_k_half ps = int kh" "p_num_pods ps = int K" "p_num_core_switches ps = int (kh * kh)"
  shows "\<exists>G. build_graph ps = Inr G \<and> is_fat_tree K kh G \<and> g_params G = Some ps"
proof -
  let ?s0 = "fold core_step [0..<kh * kh] \<lparr>cs_G = empty_graph, cs_core_switches = []\<rparr>"
  let ?i1 = "\<lparr>ns_G = cs_G ?s0, ns_pods = [], ns_cur = 0\<rparr>"
  let ?s1 = "fold (pod_step kh) [0..<K] ?i1"
  have cs: "cs_core_switches ?s0 = map node_C [0..<kh * kh]"
    by (simp add: core_switches_loop)
  have t0: "\<And>x. type_of (cs_G ?s0) x = (if x \<in> node_C ` {..<kh * kh} then Some core else None)"
    by (simp add: type_of_core_loop obs_empty_graph)
  have l0: "\<And>x y. link_of (cs_G ?s0) x y = None"
    by (simp add: link_of_core_loop obs_empty_graph)
  have h0: "host_ids (cs_G ?s0) = []"
    by (simp add: host_ids_core_loop obs_empty_graph)
  have p0: "\<And>c. c < kh * kh \<Longrightarrow> pod_of (cs_G ?s0) (node_C c) = Some (- 1)"
    by (simp add: pod_of_core_loop)
  have t1: "\<And>x. type_of (ns_G ?s1) x =
        (if x \<in> node_H ` {0..<K * (kh * kh)} then Some host
         else if \<exists>p<K. x \<in> node_E p ` {..<kh} then Some edge
         else if \<exists>p<K. x \<in> node_A p ` {..<kh} then Some agg
         else if x \<in> node_C ` {..<kh * kh} then Some core else None)"
    by (simp only: type_of_pod_loop t0 nodes_state.select_convs add_0)
  have l1: "\<And>x y. link_of (ns_G ?s1) x y =
        (if \<exists>p<K. \<exists>e<kh. \<exists>h \<in> {p * (kh * kh) + e * kh..<p * (kh * kh) + e * kh + kh}.
                   joins (node_E p e) (node_H h) x y
         then Some edge_host else None)"
    by (simp only: link_of_pod_loop l0 nodes_state.select_convs add_0)
  have h1: "host_ids (ns_G ?s1) = map node_H [0..<K * (kh * kh)]"
    using host_ids_pod_loop [of ?i1 kh K] by (simp add: h0)
  have pc: "\<And>c. c < kh * kh \<Longrightarrow> pod_of (ns_G ?s1) (node_C c) = Some (- 1)"
    by (simp add: pod_of_pod_loop_core p0)
  have psw: "\<And>p i. p < K \<Longrightarrow> i < kh \<Longrightarrow>
      pod_of (ns_G ?s1) (node_A p i) = Some (int p) \<and> pod_of (ns_G ?s1) (node_E p i) = Some (int p)"
    by (simp add: pod_of_pod_loop)
  have ph: "\<And>p e h. p < K \<Longrightarrow> e < kh \<Longrightarrow> h < kh \<Longrightarrow>
      pod_of (ns_G ?s1) (node_H (p * (kh * kh) + e * kh + h)) = Some (int p)"
  proof -
    fix p e h assume a: "p < K" "e < kh" "h < kh"
    then have "e * kh + h < kh * kh" by (intro block_lt)
    then have "node_H (p * (kh * kh) + e * kh + h)
      \<in> node_H ` {ns_cur ?i1 + p * (kh * kh)..<ns_cur ?i1 + p * (kh * kh) + kh * kh}"
      by simp
    then show "pod_of (ns_G ?s1) (node_H (p * (kh * kh) + e * kh + h)) = Some (int p)"
      using a(1) by (intro pod_of_pod_loop) simp_all
  qed
  have ah: "\<And>p e h. p < K \<Longrightarrow> e < kh \<Longrightarrow> h < kh \<Longrightarrow>
      anchor_of (ns_G ?s1) (node_H (p * (kh * kh) + e * kh + h)) = Some (node_E p e)"
    using anchor_of_pod_loop [of _ K _ kh _ ?i1] by simp
  have pods: "\<forall>p<K. \<exists>pd. map_of (ns_pods ?s1) p = Some pd \<and> ps_agg pd = map (node_A p) [0..<kh]
      \<and> ps_edge pd = map (node_E p) [0..<kh]"
    by (simp add: pod_loop_pods)
  from link_pods_obs [OF pods, of "ns_G ?s1"] obtain G2 where G2:
    "for_each [0..<K] (link_pod kh (map node_C [0..<kh * kh]) (ns_pods ?s1)) (ns_G ?s1) = Inr G2"
    "same_nodes (ns_G ?s1) G2"
    "\<And>x y. link_of G2 x y =
       (if \<exists>p<K. \<exists>a<kh. \<exists>off<kh. joins (node_A p a) (node_C (a * kh + off)) x y
        then Some agg_core
        else if \<exists>p<K. \<exists>a<kh. \<exists>e<kh. joins (node_A p a) (node_E p e) x y then Some agg_edge
        else link_of (ns_G ?s1) x y)"
    by auto
  let ?G = "G2\<lparr>g_params := Some ps, g_pod_data := ns_pods ?s1\<rparr>"
  have n: "nat (p_num_core_switches ps) = kh * kh" "nat (p_k_half ps) = kh" "nat (p_num_pods ps) = K"
    by (simp_all only: assms nat_int)
  have b: "build_graph ps = Inr ?G"
    using G2(1) by (simp add: build_graph_def Let_def n cs)
  have same: "type_of G2 = type_of (ns_G ?s1)" "pod_of G2 = pod_of (ns_G ?s1)"
    "anchor_of G2 = anchor_of (ns_G ?s1)" "host_ids G2 = host_ids (ns_G ?s1)"
    using G2(2) by (simp_all add: same_nodes_def)
  have "is_fat_tree K kh ?G"
    unfolding is_fat_tree_def obs_meta same G2(3) l1
    using t1 h1 pc psw ph ah pods by simp
  with b show ?thesis by simp
qed

lemma build_fat_tree_valid:
  assumes "k mod 2 = 0" "2 \<le> k"
  shows "\<exists>G. build_fat_tree k = Inr G \<and> is_fat_tree (nat k) (nat (k div 2)) G"
proof -
  let ?ps = "\<lparr> p_k = k, p_k_half = k div 2, p_num_pods = k,
              p_num_core_switches = (k div 2) * (k div 2), p_total_hosts = (k ^ 3) div 4 \<rparr>"
  have c: "calculate_fat_tree_params k = Inr ?ps"
    using assms by (simp add: calculate_fat_tree_params_def Let_def)
  have "\<exists>G. build_graph ?ps = Inr G \<and> is_fat_tree (nat k) (nat (k div 2)) G \<and> g_params G = Some ?ps"
    using assms by (intro build_graph_fat_tree) (simp_all add: nat_mult_distrib)
  then show ?thesis
    by (auto simp add: build_fat_tree_def c)
qed

section \<open>The built topology\<close>

lemma neighbours_iff: "v \<in> neighbours G u \<longleftrightarrow> layer_of G u v \<noteq> None"
  by (simp add: neighbours_def layer_of_def map_of_eq_None_iff)

lemma has_node_typed: "type_of G x = Some t \<Longrightarrow> has_node G x"
  using type_of_absent [of G x] by auto

lemma layer_of_typed: "type_of G x = Some t \<Longrightarrow> layer_of G x y = link_of G x y"
  by (simp add: link_of_def has_node_typed)

lemma joins_simps [simp]:
  "joins (node_A p a) (node_C c) (node_A p' i) y \<longleftrightarrow> p = p' \<and> a = i \<and> y = node_C c"
  "joins (node_A p a) (node_C c) (node_C c') y \<longleftrightarrow> c = c' \<and> y = node_A p a"
  "joins (node_A p a) (node_E q e) (node_A p' i) y \<longleftrightarrow> p = p' \<and> a = i \<and> y = node_E q e"
  "joins (node_A p a) (node_E q e) (node_E q' e') y \<longleftrightarrow> q = q' \<and> e = e' \<and> y = node_A p a"
  "joins (node_E q e) (node_H h) (node_E q' e') y \<longleftrightarrow> q = q' \<and> e = e' \<and> y = node_H h"
  "joins (node_E q e) (node_H h) (node_H h') y \<longleftrightarrow> h = h' \<and> y = node_E q e"
  "\<not> joins (node_E q e) (node_H h) (node_A p i) y"
  "\<not> joins (node_E q e) (node_H h) (node_C c) y"
  "\<not> joins (node_A p a) (node_E q e) (node_C c) y"
  "\<not> joins (node_A p a) (node_E q e) (node_H h) y"
  "\<not> joins (node_A p a) (node_C c) (node_H h) y"
  "\<not> joins (node_A p a) (node_C c) (node_E q e) y"
  by (auto simp add: joins_def)

lemma ft_type:
  assumes "is_fat_tree K kh G"
  shows "type_of G x = Some host \<longleftrightarrow> x \<in> node_H ` {0..<K * (kh * kh)}"
    and "type_of G x = Some edge \<longleftrightarrow> (\<exists>p<K. \<exists>e<kh. x = node_E p e)"
    and "type_of G x = Some agg \<longleftrightarrow> (\<exists>p<K. \<exists>a<kh. x = node_A p a)"
    and "type_of G x = Some core \<longleftrightarrow> x \<in> node_C ` {..<kh * kh}"
proof -
  from assms have t: "\<And>x. type_of G x =
        (if x \<in> node_H ` {0..<K * (kh * kh)} then Some host
         else if \<exists>p<K. x \<in> node_E p ` {..<kh} then Some edge
         else if \<exists>p<K. x \<in> node_A p ` {..<kh} then Some agg
         else if x \<in> node_C ` {..<kh * kh} then Some core else None)"
    unfolding is_fat_tree_def by blast
  show "type_of G x = Some host \<longleftrightarrow> x \<in> node_H ` {0..<K * (kh * kh)}"
    unfolding t by auto
  show "type_of G x = Some edge \<longleftrightarrow> (\<exists>p<K. \<exists>e<kh. x = node_E p e)"
    unfolding t by auto
  show "type_of G x = Some agg \<longleftrightarrow> (\<exists>p<K. \<exists>a<kh. x = node_A p a)"
    unfolding t by auto
  show "type_of G x = Some core \<longleftrightarrow> x \<in> node_C ` {..<kh * kh}"
    unfolding t by auto
qed

lemma ft_link:
  assumes "is_fat_tree K kh G"
  shows "link_of G x y = Some agg_core \<longleftrightarrow>
           (\<exists>p<K. \<exists>a<kh. \<exists>off<kh. joins (node_A p a) (node_C (a * kh + off)) x y)"
    and "link_of G x y = Some agg_edge \<longleftrightarrow>
           (\<exists>p<K. \<exists>a<kh. \<exists>e<kh. joins (node_A p a) (node_E p e) x y)"
    and "link_of G x y = Some edge_host \<longleftrightarrow>
           (\<exists>p<K. \<exists>e<kh. \<exists>h \<in> {p * (kh * kh) + e * kh..<p * (kh * kh) + e * kh + kh}.
                   joins (node_E p e) (node_H h) x y)"
proof -
  from assms have t: "\<And>x y. link_of G x y =
        (if \<exists>p<K. \<exists>a<kh. \<exists>off<kh. joins (node_A p a) (node_C (a * kh + off)) x y
         then Some agg_core
         else if \<exists>p<K. \<exists>a<kh. \<exists>e<kh. joins (node_A p a) (node_E p e) x y then Some agg_edge
         else if \<exists>p<K. \<exists>e<kh. \<exists>h \<in> {p * (kh * kh) + e * kh..<p * (kh * kh) + e * kh + kh}.
                   joins (node_E p e) (node_H h) x y
         then Some edge_host else None)"
    unfolding is_fat_tree_def by blast
  show "link_of G x y = Some agg_core \<longleftrightarrow>
           (\<exists>p<K. \<exists>a<kh. \<exists>off<kh. joins (node_A p a) (node_C (a * kh + off)) x y)"
    unfolding t by simp
  show "link_of G x y = Some agg_edge \<longleftrightarrow>
           (\<exists>p<K. \<exists>a<kh. \<exists>e<kh. joins (node_A p a) (node_E p e) x y)"
    unfolding t by (auto dest: joins_AE_AC)
  show "link_of G x y = Some edge_host \<longleftrightarrow>
           (\<exists>p<K. \<exists>e<kh. \<exists>h \<in> {p * (kh * kh) + e * kh..<p * (kh * kh) + e * kh + kh}.
                   joins (node_E p e) (node_H h) x y)"
    unfolding t by (auto dest: joins_EH_AC joins_EH_AE)
qed

lemma link_of_cases: "link_of G x y \<noteq> None \<longleftrightarrow>
    link_of G x y = Some agg_core \<or> link_of G x y = Some agg_edge \<or> link_of G x y = Some edge_host"
  by (cases "link_of G x y") (auto intro: layer.exhaust)

lemma block_iff: "x \<in> {b..<b + (n::nat)} \<longleftrightarrow> (\<exists>off<n. x = b + off)"
proof
  assume "x \<in> {b..<b + n}"
  then have "x - b < n" "x = b + (x - b)" by auto
  then show "\<exists>off<n. x = b + off" by blast
qed auto

lemma image_block: "v \<in> f ` {b..<b + (n::nat)} \<longleftrightarrow> (\<exists>off<n. v = f (b + off))"
  unfolding image_iff Bex_def block_iff by blast

lemma ft_agg_core_links:
  assumes ft: "is_fat_tree K kh G" and p: "p < K" and i: "i < kh"
  shows "{v. layer_of G (node_A p i) v = Some agg_core} = node_C ` {i * kh..<i * kh + kh}"
proof -
  have ty: "type_of G (node_A p i) = Some agg"
    using p i by (auto simp add: ft_type(3) [OF ft])
  have "\<And>v. v \<in> {v. layer_of G (node_A p i) v = Some agg_core}
      \<longleftrightarrow> v \<in> node_C ` {i * kh..<i * kh + kh}"
    unfolding mem_Collect_eq layer_of_typed [OF ty] ft_link(1) [OF ft] image_block
    using p i by auto
  then show ?thesis by blast
qed

lemma ft_agg_nbrs:
  assumes ft: "is_fat_tree K kh G" and p: "p < K" and i: "i < kh"
  shows "neighbours G (node_A p i) = node_C ` {i * kh..<i * kh + kh} \<union> node_E p ` {..<kh}"
proof -
  have ty: "type_of G (node_A p i) = Some agg"
    using p i by (auto simp add: ft_type(3) [OF ft])
  have "\<And>v. v \<in> neighbours G (node_A p i) \<longleftrightarrow>
      v \<in> node_C ` {i * kh..<i * kh + kh} \<union> node_E p ` {..<kh}"
    unfolding neighbours_iff layer_of_typed [OF ty] link_of_cases ft_link [OF ft] Un_iff
      image_block
    using p i by (auto simp add: image_iff)
  then show ?thesis by blast
qed

lemma ft_agg_core_nbrs:
  assumes ft: "is_fat_tree K kh G" and p: "p < K" and i: "i < kh"
  shows "typed_neighbours G core (node_A p i) = node_C ` {i * kh..<i * kh + kh}"
proof -
  have "\<And>off. off < kh \<Longrightarrow> i * kh + off < kh * kh"
    using i by (rule block_lt)
  then have "\<And>v. v \<in> typed_neighbours G core (node_A p i)
      \<longleftrightarrow> v \<in> node_C ` {i * kh..<i * kh + kh}"
    unfolding typed_neighbours_def mem_Collect_eq ft_agg_nbrs [OF ft p i] ft_type(4) [OF ft]
      Un_iff image_block
    by (auto simp add: image_iff)
  then show ?thesis by blast
qed

lemma card_block: "card (node_C ` {b..<b + n}) = n"
  by (simp add: card_image inj_on_def)

lemma div_mod_unique: "off < kh \<Longrightarrow> (c::nat) = a * kh + off \<longleftrightarrow> a = c div kh \<and> off = c mod kh"
  by (auto simp add: div_mult_mod_eq mult.commute)

lemma ft_core_nbrs:
  assumes ft: "is_fat_tree K kh G" and c: "c < kh * kh"
  shows "neighbours G (node_C c) = (\<lambda>p. node_A p (c div kh)) ` {..<K}"
proof -
  have ty: "type_of G (node_C c) = Some core"
    using c by (simp add: ft_type(4) [OF ft])
  have kh: "0 < kh" using c by (cases kh) auto
  have d: "c div kh < kh" using c kh by (simp add: less_mult_imp_div_less)
  have m: "c mod kh < kh" using kh by simp
  have "\<And>v. v \<in> neighbours G (node_C c) \<longleftrightarrow> v \<in> (\<lambda>p. node_A p (c div kh)) ` {..<K}"
  proof -
    fix v
    have "v \<in> neighbours G (node_C c) \<longleftrightarrow>
       (\<exists>p<K. \<exists>a<kh. \<exists>off<kh. a * kh + off = c \<and> v = node_A p a)"
      unfolding neighbours_iff layer_of_typed [OF ty] link_of_cases ft_link [OF ft]
      by simp
    also have "\<dots> \<longleftrightarrow> (\<exists>p<K. v = node_A p (c div kh))"
    proof
      assume "\<exists>p<K. \<exists>a<kh. \<exists>off<kh. a * kh + off = c \<and> v = node_A p a"
      then obtain p a off where *: "p < K" "a < kh" "off < kh" "a * kh + off = c" "v = node_A p a"
        by blast
      from *(3,4) have "a = c div kh" by auto
      with *(1,5) show "\<exists>p<K. v = node_A p (c div kh)" by blast
    next
      assume "\<exists>p<K. v = node_A p (c div kh)"
      then obtain p where *: "p < K" "v = node_A p (c div kh)" by blast
      have "c div kh * kh + c mod kh = c" by simp
      with * d m show "\<exists>p<K. \<exists>a<kh. \<exists>off<kh. a * kh + off = c \<and> v = node_A p a" by blast
    qed
    finally show "v \<in> neighbours G (node_C c) \<longleftrightarrow> v \<in> (\<lambda>p. node_A p (c div kh)) ` {..<K}"
      by auto
  qed
  then show ?thesis by blast
qed

lemma ft_core_agg_nbrs:
  assumes ft: "is_fat_tree K kh G" and c: "c < kh * kh"
  shows "typed_neighbours G agg (node_C c) = (\<lambda>p. node_A p (c div kh)) ` {..<K}"
    and "card (typed_neighbours G agg (node_C c)) = K"
    and "\<And>p. p < K \<Longrightarrow>
          {u \<in> typed_neighbours G agg (node_C c). pod_of G u = Some (int p)} = {node_A p (c div kh)}"
proof -
  have kh: "0 < kh" using c by (cases kh) auto
  have d: "c div kh < kh" using c kh by (simp add: less_mult_imp_div_less)
  show eq: "typed_neighbours G agg (node_C c) = (\<lambda>p. node_A p (c div kh)) ` {..<K}"
    unfolding typed_neighbours_def ft_core_nbrs [OF ft c] ft_type(3) [OF ft]
    using d by auto
  show "card (typed_neighbours G agg (node_C c)) = K"
    unfolding eq by (simp add: card_image inj_on_def)
  fix p assume p: "p < K"
  have pod: "\<And>q. q < K \<Longrightarrow> pod_of G (node_A q (c div kh)) = Some (int q)"
    using ft d unfolding is_fat_tree_def by blast
  show "{u \<in> typed_neighbours G agg (node_C c). pod_of G u = Some (int p)} = {node_A p (c div kh)}"
    unfolding eq using p pod by auto
qed

lemma ft_counts:
  assumes ft: "is_fat_tree K kh G"
  shows "card {x. type_of G x = Some host} = K * (kh * kh)"
    and "card {x. type_of G x = Some edge} = K * kh"
    and "card {x. type_of G x = Some agg} = K * kh"
    and "card {x. type_of G x = Some core} = kh * kh"
proof -
  have "{x. type_of G x = Some host} = node_H ` {0..<K * (kh * kh)}"
    unfolding ft_type(1) [OF ft] by simp
  then show "card {x. type_of G x = Some host} = K * (kh * kh)"
    by (simp add: card_image inj_on_def)
  have "{x. type_of G x = Some core} = node_C ` {..<kh * kh}"
    unfolding ft_type(4) [OF ft] by simp
  then show "card {x. type_of G x = Some core} = kh * kh"
    by (simp add: card_image inj_on_def)
  have "{x. type_of G x = Some edge} = (\<lambda>(p, e). node_E p e) ` ({..<K} \<times> {..<kh})"
    unfolding ft_type(2) [OF ft] by (auto simp add: image_iff)
  moreover have "inj_on (\<lambda>(p, e). node_E p e) ({..<K} \<times> {..<kh})"
    by (auto simp add: inj_on_def)
  ultimately show "card {x. type_of G x = Some edge} = K * kh"
    by (simp add: card_image)
  have "{x. type_of G x = Some agg} = (\<lambda>(p, a). node_A p a) ` ({..<K} \<times> {..<kh})"
    unfolding ft_type(3) [OF ft] by (auto simp add: image_iff)
  moreover have "inj_on (\<lambda>(p, a). node_A p a) ({..<K} \<times> {..<kh})"
    by (auto simp add: inj_on_def)
  ultimately show "card {x. type_of G x = Some agg} = K * kh"
    by (simp add: card_image)
qed

lemma ft_hosts_in_order:
  assumes ft: "is_fat_tree K kh G"
  shows "filter (\<lambda>x. type_of G x = Some host) (node_ids G) = map node_H [0..<K * (kh * kh)]"
proof -
  have h: "host_ids G = map node_H [0..<K * (kh * kh)]"
    using ft unfolding is_fat_tree_def by blast
  have "filter (\<lambda>x. type_of G x = Some host) (node_ids G) = filter is_host_id (node_ids G)"
  proof (rule filter_cong [OF refl])
    fix x assume x: "x \<in> set (node_ids G)"
    show "(type_of G x = Some host) = is_host_id x"
    proof
      assume "type_of G x = Some host"
      then show "is_host_id x" unfolding ft_type(1) [OF ft] by auto
    next
      assume "is_host_id x"
      with x have "x \<in> set (host_ids G)" by (simp add: host_ids_def)
      then show "type_of G x = Some host" unfolding h ft_type(1) [OF ft] by auto
    qed
  qed
  then show ?thesis using h by (simp add: host_ids_def)
qed

lemma block_unique:
  assumes "e < kh" "e' < kh"
    and "h \<in> {p * (kh * kh) + e * kh..<p * (kh * kh) + e * kh + kh}"
    and "h \<in> {p' * (kh * kh) + e' * kh..<p' * (kh * kh) + e' * (kh::nat) + kh}"
  shows "p = p' \<and> e = e'"
proof -
  have a: "(p * kh + e) * kh \<le> h" "h < (p * kh + e) * kh + kh"
    using assms(3) by (simp_all add: algebra_simps)
  have b: "(p' * kh + e') * kh \<le> h" "h < (p' * kh + e') * kh + kh"
    using assms(4) by (simp_all add: algebra_simps)
  have kh: "0 < kh" using assms(1) by simp
  have "h div kh = p * kh + e"
    using a kh by (intro div_nat_eqI) (simp_all add: mult.commute)
  moreover have "h div kh = p' * kh + e'"
    using b kh by (intro div_nat_eqI) (simp_all add: mult.commute)
  ultimately have eq: "p * kh + e = p' * kh + e'" by simp
  from eq have "(p * kh + e) div kh = (p' * kh + e') div kh" by simp
  then have "p = p'" using assms(1,2) by simp
  moreover from eq have "(p * kh + e) mod kh = (p' * kh + e') mod kh" by simp
  then have "e = e'" using assms(1,2) by simp
  ultimately show ?thesis by simp
qed

lemma ft_host_nbrs:
  assumes ft: "is_fat_tree K kh G" and p: "p < K" and e: "e < kh" and r: "r < kh"
  shows "neighbours G (node_H (p * (kh * kh) + e * kh + r)) = {node_E p e}"
    and "layer_of G (node_H (p * (kh * kh) + e * kh + r)) (node_E p e) = Some edge_host"
    and "anchor_of G (node_H (p * (kh * kh) + e * kh + r)) = Some (node_E p e)"
    and "type_of G (node_E p e) = Some edge"
proof -
  let ?h = "p * (kh * kh) + e * kh + r"
  have "e * kh + r < kh * kh" using e r by (rule block_lt)
  with p have "p * (kh * kh) + (e * kh + r) < K * (kh * kh)" by (rule block_lt)
  then have ty: "type_of G (node_H ?h) = Some host"
    unfolding ft_type(1) [OF ft] by (simp add: add.assoc)
  have inb: "?h \<in> {p * (kh * kh) + e * kh..<p * (kh * kh) + e * kh + kh}"
    using r by simp
  show l: "layer_of G (node_H ?h) (node_E p e) = Some edge_host"
    unfolding layer_of_typed [OF ty] ft_link(3) [OF ft] using p e inb by auto
  show "anchor_of G (node_H ?h) = Some (node_E p e)"
    using ft p e r unfolding is_fat_tree_def by blast
  show "type_of G (node_E p e) = Some edge"
    unfolding ft_type(2) [OF ft] using p e by blast
  have "\<And>v. v \<in> neighbours G (node_H ?h) \<longleftrightarrow> v = node_E p e"
  proof
    fix v assume "v \<in> neighbours G (node_H ?h)"
    then obtain p' e' where *: "p' < K" "e' < kh"
      "?h \<in> {p' * (kh * kh) + e' * kh..<p' * (kh * kh) + e' * kh + kh}" "v = node_E p' e'"
      unfolding neighbours_iff layer_of_typed [OF ty] link_of_cases ft_link [OF ft]
      by auto
    from block_unique [OF e *(2) inb *(3)] *(4) show "v = node_E p e" by simp
  next
    fix v assume "v = node_E p e"
    then show "v \<in> neighbours G (node_H ?h)"
      unfolding neighbours_iff using l by simp
  qed
  then show "neighbours G (node_H ?h) = {node_E p e}" by blast
qed

lemma host_index_split:
  assumes "h < K * (kh * kh)"
  shows "\<exists>p<K. \<exists>e<kh. \<exists>r<kh. h = p * (kh * kh) + e * kh + (r::nat)"
proof -
  have kh: "0 < kh" using assms by (cases kh) auto
  let ?p = "h div (kh * kh)" and ?q = "h mod (kh * kh)"
  have p: "?p < K" using assms kh by (simp add: less_mult_imp_div_less)
  have q: "?q < kh * kh" using kh by simp
  then have e: "?q div kh < kh" using kh by (simp add: less_mult_imp_div_less)
  have r: "?q mod kh < kh" using kh by simp
  have "h = ?p * (kh * kh) + ?q" by (rule div_mult_mod_eq [symmetric])
  also have "?q = ?q div kh * kh + ?q mod kh" by (rule div_mult_mod_eq [symmetric])
  finally have "h = ?p * (kh * kh) + ?q div kh * kh + ?q mod kh" by (simp only: add.assoc)
  with p e r show ?thesis by blast
qed

lemma ft_host_one_edge:
  assumes ft: "is_fat_tree K kh G" and h: "h < K * (kh * kh)"
  shows "\<exists>e. type_of G e = Some edge \<and> neighbours G (node_H h) = {e}
     \<and> layer_of G (node_H h) e = Some edge_host \<and> anchor_of G (node_H h) = Some e"
proof -
  from host_index_split [OF h] obtain p e r where
    *: "p < K" "e < kh" "r < kh" "h = p * (kh * kh) + e * kh + r" by blast
  from ft_host_nbrs [OF ft *(1,2,3)] show ?thesis unfolding *(4) by blast
qed

lemma fat_tree_arith:
  assumes "k mod 2 = 0" "2 \<le> (k::int)"
  shows "nat k * (nat (k div 2) * nat (k div 2)) = nat (k ^ 3 div 4)"
    and "nat k * nat (k div 2) = nat (k * (k div 2))"
    and "nat (k div 2) * nat (k div 2) = nat ((k div 2) ^ 2)"
    and "0 < nat (k div 2)"
proof -
  obtain m where m: "k = 2 * m" using assms(1) by (metis mod_eq_0_iff_dvd dvdE)
  with assms(2) have m1: "1 \<le> m" by simp
  have "k ^ 3 = 4 * (k * (m * m))" unfolding m by (simp add: power3_eq_cube)
  then have "k ^ 3 div 4 = k * (m * m)" by simp
  moreover have "k div 2 = m" unfolding m by simp
  ultimately show "nat k * (nat (k div 2) * nat (k div 2)) = nat (k ^ 3 div 4)"
    using m1 assms(2) by (simp add: nat_mult_distrib)
  show "nat k * nat (k div 2) = nat (k * (k div 2))"
    using assms(2) by (simp add: nat_mult_distrib)
  show "nat (k div 2) * nat (k div 2) = nat ((k div 2) ^ 2)"
    using assms(2) by (simp add: nat_mult_distrib power2_eq_square)
  show "0 < nat (k div 2)" using assms(2) by simp
qed

text \<open>
  Claim C1. For every even \<open>k \<ge> 2\<close> the build succeeds, and in the graph the \<open>i\<close>-th
  aggregation switch of every pod \<open>p\<close> (the \<open>i\<close>-th entry of the pod's \<^verbatim>\<open>agg\<close> list, node
  \<^verbatim>\<open>A_p_i\<close>) is linked by \<^verbatim>\<open>agg_core\<close> links to exactly the core switches \<^verbatim>\<open>C_c\<close> with
  \<open>i * (k/2) \<le> c < (i + 1) * (k/2)\<close>; these are all its core neighbours, \<open>k/2\<close> of them.
  Every core switch \<^verbatim>\<open>C_c\<close> has exactly \<open>k\<close> aggregation neighbours, the switch
  \<open>c div (k/2)\<close> of each pod, one per pod.
\<close>

theorem build_fat_tree_striping:
  assumes "k mod 2 = 0" and "2 \<le> k"
  shows "\<exists>G. build_fat_tree k = Inr G \<and>
    (\<forall>p<nat k. \<forall>i<nat (k div 2).
       (\<exists>pd. map_of (g_pod_data G) p = Some pd \<and> ps_agg pd ! i = node_A p i) \<and>
       type_of G (node_A p i) = Some agg \<and> pod_of G (node_A p i) = Some (int p) \<and>
       {v. layer_of G (node_A p i) v = Some agg_core}
         = node_C ` {i * nat (k div 2)..<(i + 1) * nat (k div 2)} \<and>
       typed_neighbours G core (node_A p i)
         = node_C ` {i * nat (k div 2)..<(i + 1) * nat (k div 2)} \<and>
       card (typed_neighbours G core (node_A p i)) = nat (k div 2)) \<and>
    (\<forall>c<nat (k div 2) * nat (k div 2).
       type_of G (node_C c) = Some core \<and>
       typed_neighbours G agg (node_C c) = (\<lambda>p. node_A p (c div nat (k div 2))) ` {..<nat k} \<and>
       card (typed_neighbours G agg (node_C c)) = nat k \<and>
       (\<forall>p<nat k. {u \<in> typed_neighbours G agg (node_C c). pod_of G u = Some (int p)}
           = {node_A p (c div nat (k div 2))}))"
proof -
  let ?K = "nat k" and ?kh = "nat (k div 2)"
  from build_fat_tree_valid [OF assms] obtain G where
    G: "build_fat_tree k = Inr G" and ft: "is_fat_tree ?K ?kh G" by blast
  have agg: "\<And>p i. p < ?K \<Longrightarrow> i < ?kh \<Longrightarrow>
       (\<exists>pd. map_of (g_pod_data G) p = Some pd \<and> ps_agg pd ! i = node_A p i) \<and>
       type_of G (node_A p i) = Some agg \<and> pod_of G (node_A p i) = Some (int p) \<and>
       {v. layer_of G (node_A p i) v = Some agg_core} = node_C ` {i * ?kh..<(i + 1) * ?kh} \<and>
       typed_neighbours G core (node_A p i) = node_C ` {i * ?kh..<(i + 1) * ?kh} \<and>
       card (typed_neighbours G core (node_A p i)) = ?kh"
  proof -
    fix p i assume p: "p < ?K" and i: "i < ?kh"
    have e: "(i + 1) * ?kh = i * ?kh + ?kh" by simp
    from ft p obtain pd where pd: "map_of (g_pod_data G) p = Some pd"
      "ps_agg pd = map (node_A p) [0..<?kh]"
      unfolding is_fat_tree_def by blast
    have 1: "\<exists>pd. map_of (g_pod_data G) p = Some pd \<and> ps_agg pd ! i = node_A p i"
      using pd i by simp
    have 2: "type_of G (node_A p i) = Some agg"
      unfolding ft_type(3) [OF ft] using p i by blast
    have 3: "pod_of G (node_A p i) = Some (int p)"
      using ft p i unfolding is_fat_tree_def by blast
    note 4 = ft_agg_core_links [OF ft p i] and 5 = ft_agg_core_nbrs [OF ft p i]
    have 6: "card (typed_neighbours G core (node_A p i)) = ?kh"
      unfolding 5 by (rule card_block)
    show "(\<exists>pd. map_of (g_pod_data G) p = Some pd \<and> ps_agg pd ! i = node_A p i) \<and>
       type_of G (node_A p i) = Some agg \<and> pod_of G (node_A p i) = Some (int p) \<and>
       {v. layer_of G (node_A p i) v = Some agg_core} = node_C ` {i * ?kh..<(i + 1) * ?kh} \<and>
       typed_neighbours G core (node_A p i) = node_C ` {i * ?kh..<(i + 1) * ?kh} \<and>
       card (typed_neighbours G core (node_A p i)) = ?kh"
      unfolding e using 1 2 3 4 5 6 by blast
  qed
  have cor: "\<And>c. c < ?kh * ?kh \<Longrightarrow>
       type_of G (node_C c) = Some core \<and>
       typed_neighbours G agg (node_C c) = (\<lambda>p. node_A p (c div ?kh)) ` {..<?K} \<and>
       card (typed_neighbours G agg (node_C c)) = ?K \<and>
       (\<forall>p<?K. {u \<in> typed_neighbours G agg (node_C c). pod_of G u = Some (int p)}
           = {node_A p (c div ?kh)})"
  proof -
    fix c assume c: "c < ?kh * ?kh"
    have 1: "type_of G (node_C c) = Some core"
      unfolding ft_type(4) [OF ft] using c by simp
    from ft_core_agg_nbrs [OF ft c] 1 show
      "type_of G (node_C c) = Some core \<and>
       typed_neighbours G agg (node_C c) = (\<lambda>p. node_A p (c div ?kh)) ` {..<?K} \<and>
       card (typed_neighbours G agg (node_C c)) = ?K \<and>
       (\<forall>p<?K. {u \<in> typed_neighbours G agg (node_C c). pod_of G u = Some (int p)}
           = {node_A p (c div ?kh)})"
      by blast
  qed
  from G agg cor show ?thesis by blast
qed

theorem build_fat_tree_striping_witness:
  "(4::int) mod 2 = 0 \<and> (2::int) \<le> 4 \<and>
   (\<exists>G. build_fat_tree 4 = Inr G \<and>
      {v. layer_of G (node_A 3 1) v = Some agg_core} = node_C ` {2..<4} \<and>
      typed_neighbours G core (node_A 3 1) = node_C ` {2..<4} \<and>
      card (typed_neighbours G core (node_A 3 1)) = 2 \<and>
      typed_neighbours G agg (node_C 3) = (\<lambda>p. node_A p 1) ` {..<4} \<and>
      card (typed_neighbours G agg (node_C 3)) = 4)"
proof -
  have h: "(4::int) mod 2 = 0" "(2::int) \<le> 4" by simp_all
  have i: "(3::nat) < nat 4" "(1::nat) < nat (4 div 2)" "(3::nat) < nat (4 div 2) * nat (4 div 2)"
    by simp_all
  from build_fat_tree_striping [OF h] show ?thesis
  proof (elim exE conjE, goal_cases)
    case (1 G)
    note a = 1(2) [rule_format, OF i(1) i(2)] and c = 1(3) [rule_format, OF i(3)]
    have n: "1 * nat (4 div 2) = 2" "(1 + 1) * nat (4 div 2) = 4" "3 div nat (4 div 2) = 1"
      "nat 4 = 4" "nat (4 div 2) = 2"
      by simp_all
    from a c 1(1) show ?case unfolding n
      by (intro conjI exI [of _ G]) (simp_all add: card_image inj_on_def)
  qed
qed

text \<open>
  Claim C2. For every even \<open>k \<ge> 2\<close> the build succeeds and the graph has exactly
  \<open>k\<^sup>3/4\<close> host nodes, \<open>k * (k/2)\<close> edge switches, \<open>k * (k/2)\<close> aggregation switches and
  \<open>(k/2)\<^sup>2\<close> core switches; the hosts, in the order of their creation, are
  \<^verbatim>\<open>H_0\<close>, \<^verbatim>\<open>H_1\<close>, ... numbered consecutively; every host has exactly one neighbour, an
  edge switch (its \<^verbatim>\<open>edge_anchor\<close>), joined by an \<^verbatim>\<open>edge_host\<close> link.
\<close>

theorem build_fat_tree_counts:
  assumes "k mod 2 = 0" and "2 \<le> k"
  shows "\<exists>G. build_fat_tree k = Inr G \<and>
    card {x. type_of G x = Some host} = nat (k ^ 3 div 4) \<and>
    card {x. type_of G x = Some edge} = nat (k * (k div 2)) \<and>
    card {x. type_of G x = Some agg} = nat (k * (k div 2)) \<and>
    card {x. type_of G x = Some core} = nat ((k div 2) ^ 2) \<and>
    filter (\<lambda>x. type_of G x = Some host) (node_ids G) = map node_H [0..<nat (k ^ 3 div 4)] \<and>
    (\<forall>h<nat (k ^ 3 div 4).
       \<exists>e. type_of G e = Some edge \<and> neighbours G (node_H h) = {e} \<and>
           layer_of G (node_H h) e = Some edge_host \<and> anchor_of G (node_H h) = Some e)"
proof -
  let ?K = "nat k" and ?kh = "nat (k div 2)"
  from build_fat_tree_valid [OF assms] obtain G where
    G: "build_fat_tree k = Inr G" and ft: "is_fat_tree ?K ?kh G" by blast
  note ar = fat_tree_arith [OF assms]
  note c = ft_counts(1) [OF ft, unfolded ar(1)] ft_counts(2) [OF ft, unfolded ar(2)]
    ft_counts(3) [OF ft, unfolded ar(2)] ft_counts(4) [OF ft, unfolded ar(3)]
  note o = ft_hosts_in_order [OF ft, unfolded ar(1)]
  have n: "\<And>h. h < nat (k ^ 3 div 4) \<Longrightarrow>
       \<exists>e. type_of G e = Some edge \<and> neighbours G (node_H h) = {e} \<and>
           layer_of G (node_H h) e = Some edge_host \<and> anchor_of G (node_H h) = Some e"
    using ft_host_one_edge [OF ft] unfolding ar(1) by blast
  from G c o n show ?thesis by blast
qed

theorem build_fat_tree_counts_witness:
  "(6::int) mod 2 = 0 \<and> (2::int) \<le> 6 \<and>
   (\<exists>G. build_fat_tree 6 = Inr G \<and>
      card {x. type_of G x = Some host} = 54 \<and>
      card {x. type_of G x = Some edge} = 18 \<and>
      card {x. type_of G x = Some agg} = 18 \<and>
      card {x. type_of G x = Some core} = 9 \<and>
      filter (\<lambda>x. type_of G x = Some host) (node_ids G) = map node_H [0..<54])"
proof -
  have h: "(6::int) mod 2 = 0" "(2::int) \<le> 6" by simp_all
  from build_fat_tree_counts [OF h] show ?thesis
  proof (elim exE conjE, goal_cases)
    case (1 G)
    have n: "nat (6 ^ 3 div 4) = 54" "nat (6 * (6 div 2)) = 18" "nat ((6 div 2)\<^sup>2) = 9"
      by simp_all
    from 1(1-6) show ?case unfolding n by (intro conjI exI [of _ G]) simp_all
  qed
qed

section \<open>Parameter validation\<close>

text \<open>
  Claim C7, as stated: for an invalid \<open>k\<close> the build fails with the invalid-parameter
  error. That error is the \<^verbatim>\<open>ValueError\<close> of \<^verbatim>\<open>calculate_fat_tree_params\<close>, and
  \<^verbatim>\<open>build_fat_tree\<close> does not fail with it: it catches it and exits.
\<close>

theorem build_fat_tree_not_value_error_counterexample:
  "calculate_fat_tree_params 3 = Inl ValueError
   \<and> build_fat_tree 3 = Inl (SystemExit 1) \<and> build_fat_tree 3 \<noteq> Inl ValueError"
  by (simp add: build_fat_tree_def calculate_fat_tree_params_def)

text \<open>
  Claim C7, amended. For every integer \<open>k\<close> that is odd or less than 2 the parameter
  computation raises \<^verbatim>\<open>ValueError\<close>; \<^verbatim>\<open>build_fat_tree\<close> catches it, reports it and ends
  the program with \<^verbatim>\<open>SystemExit(1)\<close>. No graph is returned and no other \<open>k\<close> is
  substituted.
\<close>

theorem build_fat_tree_invalid:
  assumes "k mod 2 \<noteq> 0 \<or> k < 2"
  shows "calculate_fat_tree_params k = Inl ValueError \<and> build_fat_tree k = Inl (SystemExit 1)"
  using assms by (simp add: build_fat_tree_def calculate_fat_tree_params_def)

theorem build_fat_tree_invalid_witness:
  "(3::int) mod 2 = 1 \<and> (0::int) < 2
   \<and> calculate_fat_tree_params 3 = Inl ValueError \<and> build_fat_tree 3 = Inl (SystemExit 1)
   \<and> calculate_fat_tree_params 0 = Inl ValueError \<and> build_fat_tree 0 = Inl (SystemExit 1)"
  using build_fat_tree_invalid [of 3] build_fat_tree_invalid [of 0] by simp

section \<open>Failure injection\<close>

lemma edges_star_graph_1: "edges (star_graph 1) = [(''hub'', ''H_0'')]"
  by code_simp

lemma fl_small: "fl 200 = 200" "fl 2 = 2" "fl 1 = 1"
  by code_simp+

lemma num_to_fail_of_examples:
  "num_to_fail_of (Suc 0) (Fin 200) = Inr 2"
  "num_to_fail_of (Suc 0) PInf = Inl OverflowError"
  "num_to_fail_of (Suc 0) NaN = Inl ValueError"
  by (simp_all add: num_to_fail_of_def overflows_def fl_small)

text \<open>
  Claim C5. For every graph and every failure rate \<open>r \<le> 0\<close>, \<^verbatim>\<open>model_link_failures\<close>
  returns the empty list and leaves the graph (nodes, links, attributes) and the random
  generator as they were.
\<close>

theorem model_link_failures_nonpositive:
  assumes "le_zero r"
  shows "model_link_failures smp G r rng = (Inr [], G, rng)"
  using assms by (simp add: model_link_failures_def)

theorem model_link_failures_nonpositive_witness:
  "le_zero (Fin 0) \<and> le_zero (Fin (- 5 / 2)) \<and> le_zero NInf
   \<and> model_link_failures leading_positions (star_graph 1) (Fin 0) () = (Inr [], star_graph 1, ())
   \<and> model_link_failures leading_positions (star_graph 1) (Fin (- 5 / 2)) ()
       = (Inr [], star_graph 1, ())
   \<and> model_link_failures leading_positions (star_graph 1) NInf () = (Inr [], star_graph 1, ())"
  using model_link_failures_nonpositive [of "Fin 0" leading_positions "star_graph 1" "()"]
    model_link_failures_nonpositive [of "Fin (- 5 / 2)" leading_positions "star_graph 1" "()"]
    model_link_failures_nonpositive [of NInf leading_positions "star_graph 1" "()"]
  by simp

text \<open>
  Claim C4, as stated: for a rate above 100 the number of links to fail is clamped to the
  number of links and the call succeeds. It does not: with one link and a rate of 200 the
  count is 2, \<^verbatim>\<open>random.sample\<close> raises \<^verbatim>\<open>ValueError\<close> and the link is still there.
\<close>

theorem model_link_failures_no_clamp_counterexample:
  "num_to_fail_of (length (edges (star_graph 1))) (Fin 200) = Inr 2
   \<and> model_link_failures leading_positions (star_graph 1) (Fin 200) ()
       = (Inl ValueError, star_graph 1, ())
   \<and> edges (star_graph 1) = [(''hub'', ''H_0'')]"
  by (simp add: model_link_failures_def random_sample_def edges_star_graph_1
        num_to_fail_of_examples del: One_nat_def)

text \<open>
  Claim C4, amended. For every graph and every rate that passes the guard (it is not
  \<open>\<le> 0\<close>): when the computed number of links to fail exceeds the number of links (this
  needs a rate above 100), \<^verbatim>\<open>random.sample\<close> raises \<^verbatim>\<open>ValueError\<close>; when the computation
  of that number itself raises (\<^verbatim>\<open>OverflowError\<close> for a rate too large for a \<^verbatim>\<open>float\<close> or
  a product that overflows, \<^verbatim>\<open>ValueError\<close> for \<^verbatim>\<open>nan\<close>), that exception is the outcome.
  Nothing is clamped; no link is removed, and the graph and the random generator are
  unchanged.
\<close>

theorem model_link_failures_exceeds:
  assumes "\<not> le_zero r"
  shows "(\<forall>n. num_to_fail_of (length (edges G)) r = Inr n \<longrightarrow> int (length (edges G)) < n \<longrightarrow>
            model_link_failures smp G r rng = (Inl ValueError, G, rng))
       \<and> (\<forall>e. num_to_fail_of (length (edges G)) r = Inl e \<longrightarrow>
            model_link_failures smp G r rng = (Inl e, G, rng))"
  using assms by (simp add: model_link_failures_def random_sample_def)

theorem model_link_failures_exceeds_witness:
  "\<not> le_zero (Fin 200) \<and> \<not> le_zero PInf \<and> \<not> le_zero NaN
   \<and> num_to_fail_of (length (edges (star_graph 1))) (Fin 200) = Inr 2
   \<and> int (length (edges (star_graph 1))) < 2
   \<and> model_link_failures leading_positions (star_graph 1) (Fin 200) ()
       = (Inl ValueError, star_graph 1, ())
   \<and> model_link_failures leading_positions (star_graph 1) PInf ()
       = (Inl OverflowError, star_graph 1, ())
   \<and> model_link_failures leading_positions (star_graph 1) NaN ()
       = (Inl ValueError, star_graph 1, ())"
proof -
  have h: "\<not> le_zero (Fin 200)" "\<not> le_zero PInf" "\<not> le_zero NaN"
    by simp_all
  have e: "length (edges (star_graph 1)) = Suc 0"
    by (simp add: edges_star_graph_1 del: One_nat_def)
  show ?thesis
    using model_link_failures_exceeds [OF h(1), of "star_graph 1" leading_positions "()"]
      model_link_failures_exceeds [OF h(2), of "star_graph 1" leading_positions "()"]
      model_link_failures_exceeds [OF h(3), of "star_graph 1" leading_positions "()"]
    by (simp add: e num_to_fail_of_examples del: One_nat_def)
qed

lemma edges_star_graph_25: "edges (star_graph 25) = map (\<lambda>i. (''hub'', node_H i)) [0..<25]"
  by code_simp

lemma fl_rounding_examples:
  "fl 28 = 28" "fl 25 = 25" "fl 7 = 7" "fl 6000 = 6000"
  "fl (28 / 100) = 5044031582654956 / 18014398509481984"
  "fl (25 * (5044031582654956 / 18014398509481984)) = 7881299347898369 / 1125899906842624"
  by code_simp+

lemma fl_rounding_examples_2:
  "fl (7 / 100) = 1261007895663739 / 18014398509481984"
  "fl (472877960873902125 / 1125899906842624) = 7388718138654721 / 17592186044416"
  "fl (25 * fl (7 / 25)) = 7881299347898369 / 1125899906842624"
  "\<lceil>7881299347898369 / 1125899906842624 :: rat\<rceil> = 8"
  "\<lceil>7388718138654721 / 17592186044416 :: rat\<rceil> = 421"
  by code_simp+

lemma num_to_fail_of_rounding:
  "num_to_fail_of 25 (Fin 28) = Inr 8" "num_to_fail_of 6000 (Fin 7) = Inr 421"
  by (simp_all add: num_to_fail_of_def overflows_def fl_rounding_examples fl_rounding_examples_2)

text \<open>
  Claim C3 at a concrete input: a graph with 25 links and a failure rate of 28 percent.
  The exact ceiling of \<open>25 * 28 / 100\<close> is 7, but in double precision \<^verbatim>\<open>28 / 100.0\<close> is
  slightly above 0.28, the product is \<^verbatim>\<open>7.000000000000001\<close>, and 8 links are sampled and
  removed. The same happens with 6000 links (the fat tree with \<open>k = 20\<close>) at the rate
  of 7 percent, one of the rates the program sweeps: 421 links instead of 420.
\<close>

theorem model_link_failures_rounding_excess:
  "length (edges (star_graph 25)) = 25
   \<and> \<lceil>(25::rat) * 28 / 100\<rceil> = 7
   \<and> num_to_fail_of 25 (Fin 28) = Inr 8
   \<and> fst (model_link_failures leading_positions (star_graph 25) (Fin 28) ())
       = Inr (map (\<lambda>i. (''hub'', node_H i)) [0..<8])
   \<and> \<lceil>(6000::rat) * 7 / 100\<rceil> = 420 \<and> num_to_fail_of 6000 (Fin 7) = Inr 421"
proof -
  have c: "\<lceil>(25::rat) * 28 / 100\<rceil> = 7" "\<lceil>(6000::rat) * 7 / 100\<rceil> = 420"
    by simp_all
  have m: "map ((!) (map (\<lambda>i. (''hub'', node_H i)) [0..<25])) [0..<8]
      = map (\<lambda>i. (''hub'', node_H i)) [0..<8]"
    by (rule nth_equalityI) simp_all
  have r: "fst (model_link_failures leading_positions (star_graph 25) (Fin 28) ())
       = Inr (map (\<lambda>i. (''hub'', node_H i)) [0..<8])"
    by (simp add: model_link_failures_def random_sample_def leading_positions_def
        edges_star_graph_25 num_to_fail_of_rounding m)
  show ?thesis
    using c r by (simp add: edges_star_graph_25 num_to_fail_of_rounding)
qed

end
